theory Spec2Isabelle
  imports Main
begin

section \<open>Data model\<close>

text \<open>
  One row of the \<open>Contact\<close> table (prisma/migrations/.../migration.sql). Timestamps are
  natural numbers (milliseconds), \<open>NULL\<close> is \<open>None\<close>. The column \<open>id\<close> is called
  \<open>id_c\<close> here, since \<open>id\<close> is the identity function of HOL. The column
  \<open>linkPrecedence\<close> only ever receives the two values the service writes.
\<close>

datatype LinkPrecedence = Primary | Secondary

record Contact =
  id_c :: nat
  phoneNumber :: "string option"
  email :: "string option"
  linkedId :: "nat option"
  linkPrecedence :: LinkPrecedence
  createdAt :: nat
  updatedAt :: nat
  deletedAt :: "nat option"

text \<open>
  The table: its rows, in the order in which the store scans them, and the next value of
  the \<open>SERIAL\<close> sequence behind \<open>id\<close>. The store assigns the timestamps; a call is
  given the time \<open>now\<close> at which it runs.
\<close>

record store =
  rows :: "Contact list"
  nextId :: nat

text \<open>The payload of \<open>POST /identify\<close> (interface \<open>IdentifyResponse\<close>, service.ts:9).\<close>

record IdentifyResponse =
  primaryContactId :: nat
  emails :: "string list"
  phoneNumbers :: "string list"
  secondaryContactIds :: "nat list"

text \<open>
  What a call can throw. \<open>PrismaClientKnownRequestError\<close> carries Prisma's error code;
  \<open>P2002\<close> is the unique-constraint violation (errors.ts). \<open>TypeError\<close> is what
  JavaScript throws on reading a property of \<open>undefined\<close>.
\<close>

datatype error =
    PrismaClientKnownRequestError string
  | PrismaClientValidationError
  | TypeError
  | OtherError string

definition PRISMA_UNIQUE_CONSTRAINT_CODE :: string where
  "PRISMA_UNIQUE_CONSTRAINT_CODE = ''P2002''"

section \<open>The store operations the service uses\<close>

text \<open>JavaScript truthiness of a \<open>string | null\<close>: neither \<open>null\<close> nor the empty string.\<close>

definition truthy :: "string option \<Rightarrow> bool" where
  "truthy v = (v \<noteq> None \<and> v \<noteq> Some [])"

definition live :: "Contact \<Rightarrow> bool" where
  "live c = (deletedAt c = None)"

text \<open>
  \<open>orderBy: { createdAt: "asc" }\<close>. The query names no second sort key, so rows with the
  same \<open>createdAt\<close> come back in the order the store holds them: a stable sort of the
  table's row sequence.
\<close>

definition orderByCreatedAt :: "Contact list \<Rightarrow> Contact list" where
  "orderByCreatedAt cs = sort_key createdAt cs"

text \<open>
  The \<open>where\<close> clause of step 1 (service.ts:113-121): one disjunct per truthy input field;
  with no disjunct at all \<open>OR\<close> is \<open>undefined\<close> and only \<open>deletedAt: null\<close> filters.
\<close>

definition matchesInput :: "string option \<Rightarrow> string option \<Rightarrow> Contact \<Rightarrow> bool" where
  "matchesInput em ph c =
     (if \<not> truthy em \<and> \<not> truthy ph then True
      else (truthy em \<and> email c = em) \<or> (truthy ph \<and> phoneNumber c = ph))"

definition matchingContacts :: "store \<Rightarrow> string option \<Rightarrow> string option \<Rightarrow> Contact list" where
  "matchingContacts st em ph =
     orderByCreatedAt (filter (\<lambda>c. live c \<and> matchesInput em ph c) (rows st))"

text \<open>
  The unique index \<open>uq_contact_identity\<close> on (email, phoneNumber, linkedId). PostgreSQL
  treats \<open>NULL\<close>s as distinct, so only a triple without \<open>NULL\<close> can collide; the index
  is not partial, so soft-deleted rows count.
\<close>

definition uniqueConflict ::
  "store \<Rightarrow> string option \<Rightarrow> string option \<Rightarrow> nat option \<Rightarrow> bool" where
  "uniqueConflict st em ph l =
     (em \<noteq> None \<and> ph \<noteq> None \<and> l \<noteq> None \<and>
      list_ex (\<lambda>c. email c = em \<and> phoneNumber c = ph \<and> linkedId c = l) (rows st))"

text \<open>
  \<open>tx.contact.create\<close>: the row takes the next id of the sequence and the current time;
  the primary key and the unique index reject it with \<open>P2002\<close>.
\<close>

definition newRow ::
  "nat \<Rightarrow> store \<Rightarrow> string option \<Rightarrow> string option \<Rightarrow> nat option \<Rightarrow> LinkPrecedence \<Rightarrow> Contact" where
  "newRow now st em ph l prec =
     \<lparr> id_c = nextId st, phoneNumber = ph, email = em, linkedId = l, linkPrecedence = prec,
       createdAt = now, updatedAt = now, deletedAt = None \<rparr>"

definition create ::
  "nat \<Rightarrow> store \<Rightarrow> string option \<Rightarrow> string option \<Rightarrow> nat option \<Rightarrow> LinkPrecedence
   \<Rightarrow> error + (store \<times> Contact)" where
  "create now st em ph l prec =
     (if nextId st \<in> set (map id_c (rows st)) \<or> uniqueConflict st em ph l
      then Inl (PrismaClientKnownRequestError PRISMA_UNIQUE_CONSTRAINT_CODE)
      else
        let c = newRow now st em ph l prec
        in Inr (st \<lparr> rows := rows st @ [c], nextId := Suc (nextId st) \<rparr>, c))"

text \<open>
  The two writes of the merge loop (service.ts:172-184): \<open>update\<close> by id, which demotes,
  and \<open>updateMany\<close>, which re-links the live children. Both stamp \<open>updatedAt\<close>. As in
  the store interface of the specification (6.1), only an insert is rejected by the
  unique index; where the index would reject one of these updates, the call fails, and a
  property of the successful calls is not affected.
\<close>

definition demote :: "nat \<Rightarrow> nat \<Rightarrow> nat \<Rightarrow> store \<Rightarrow> store" where
  "demote now demotedId rootId st =
     st \<lparr> rows := map (\<lambda>c. if id_c c = demotedId
                            then c \<lparr> linkedId := Some rootId, linkPrecedence := Secondary,
                                     updatedAt := now \<rparr>
                            else c) (rows st) \<rparr>"

definition relinkChildren :: "nat \<Rightarrow> nat \<Rightarrow> nat \<Rightarrow> store \<Rightarrow> store" where
  "relinkChildren now demotedId rootId st =
     st \<lparr> rows := map (\<lambda>c. if linkedId c = Some demotedId \<and> live c
                            then c \<lparr> linkedId := Some rootId, updatedAt := now \<rparr>
                            else c) (rows st) \<rparr>"

section \<open>The response builder (service.ts:251-280)\<close>

text \<open>The loop over the secondaries, with its two accumulators.\<close>

fun collect :: "Contact list \<Rightarrow> string list \<times> string list \<Rightarrow> string list \<times> string list" where
  "collect [] acc = acc"
| "collect (s # ss) (es, ps) =
     collect ss
       ((case email s of
           Some e \<Rightarrow> if e \<noteq> [] \<and> e \<notin> set es then es @ [e] else es
         | None \<Rightarrow> es),
        (case phoneNumber s of
           Some p \<Rightarrow> if p \<noteq> [] \<and> p \<notin> set ps then ps @ [p] else ps
         | None \<Rightarrow> ps))"

definition pushIfTruthy :: "string option \<Rightarrow> string list" where
  "pushIfTruthy v = (case v of Some x \<Rightarrow> if x \<noteq> [] then [x] else [] | None \<Rightarrow> [])"

definition buildResponse :: "Contact \<Rightarrow> Contact list \<Rightarrow> IdentifyResponse" where
  "buildResponse primary secondaries =
     (let (es, ps) = collect secondaries
                       (pushIfTruthy (email primary), pushIfTruthy (phoneNumber primary))
      in \<lparr> primaryContactId = id_c primary, emails = es, phoneNumbers = ps,
           secondaryContactIds = map id_c secondaries \<rparr>)"

section \<open>reconcile (service.ts:107-239)\<close>

text \<open>Step 3: the id a match contributes to \<open>primaryIds\<close> (\<open>c.linkedId!\<close> may be \<open>null\<close>).\<close>

definition rootIdOf :: "Contact \<Rightarrow> nat option" where
  "rootIdOf c = (if linkPrecedence c = Primary then Some (id_c c) else linkedId c)"

definition primaryIds :: "Contact list \<Rightarrow> nat option list" where
  "primaryIds ms = remdups (map rootIdOf ms)"

text \<open>
  The fetch of the roots (service.ts:150-153). A \<open>null\<close> among the ids of the \<open>in\<close> filter
  is rejected by the client's argument validation.
\<close>

definition fetchPrimaries :: "store \<Rightarrow> nat option list \<Rightarrow> error + Contact list" where
  "fetchPrimaries st ids =
     (if None \<in> set ids then Inl PrismaClientValidationError
      else Inr (orderByCreatedAt
                  (filter (\<lambda>c. Some (id_c c) \<in> set ids \<and> live c) (rows st))))"

text \<open>Step 4: the loop \<open>for (let i = 1; i < primaries.length; i++)\<close> over the losers.\<close>

fun mergeLoop :: "nat \<Rightarrow> nat \<Rightarrow> Contact list \<Rightarrow> store \<Rightarrow> store" where
  "mergeLoop now rootId [] st = st"
| "mergeLoop now rootId (demoted # rest) st =
     mergeLoop now rootId rest
       (relinkChildren now (id_c demoted) rootId (demote now (id_c demoted) rootId st))"

text \<open>Step 5: the re-read of the group and the three flags.\<close>

definition allLinkedOf :: "store \<Rightarrow> nat \<Rightarrow> Contact list" where
  "allLinkedOf st rootId =
     orderByCreatedAt
       (filter (\<lambda>c. live c \<and> (id_c c = rootId \<or> linkedId c = Some rootId)) (rows st))"

definition existingEmails :: "Contact list \<Rightarrow> string option set" where
  "existingEmails cs = set (filter truthy (map email cs))"

definition existingPhones :: "Contact list \<Rightarrow> string option set" where
  "existingPhones cs = set (filter truthy (map phoneNumber cs))"

definition hasNewEmail :: "string option \<Rightarrow> Contact list \<Rightarrow> bool" where
  "hasNewEmail em cs = (em \<noteq> None \<and> em \<notin> existingEmails cs)"

definition hasNewPhone :: "string option \<Rightarrow> Contact list \<Rightarrow> bool" where
  "hasNewPhone ph cs = (ph \<noteq> None \<and> ph \<notin> existingPhones cs)"

definition exactDuplicate :: "string option \<Rightarrow> string option \<Rightarrow> Contact list \<Rightarrow> bool" where
  "exactDuplicate em ph cs =
     list_ex (\<lambda>c. (em = None \<or> email c = em) \<and> (ph = None \<or> phoneNumber c = ph)) cs"

definition attachNeeded :: "string option \<Rightarrow> string option \<Rightarrow> Contact list \<Rightarrow> bool" where
  "attachNeeded em ph cs =
     ((hasNewEmail em cs \<or> hasNewPhone ph cs) \<and> \<not> exactDuplicate em ph cs)"

text \<open>
  Steps 5 and 6 for a survivor \<open>rootPrimary\<close>, on the store as the merge left it.
\<close>

definition attachAndRespond ::
  "nat \<Rightarrow> store \<Rightarrow> string option \<Rightarrow> string option \<Rightarrow> Contact
   \<Rightarrow> error + (store \<times> IdentifyResponse)" where
  "attachAndRespond now st em ph rootPrimary =
     (let allLinked = allLinkedOf st (id_c rootPrimary) in
      if attachNeeded em ph allLinked then
        (case create now st em ph (Some (id_c rootPrimary)) Secondary of
           Inl err \<Rightarrow> Inl err
         | Inr (st', newSecondary) \<Rightarrow>
             Inr (st', buildResponse rootPrimary
                         (filter (\<lambda>c. id_c c \<noteq> id_c rootPrimary)
                                 (allLinked @ [newSecondary]))))
      else
        Inr (st, buildResponse rootPrimary
                   (filter (\<lambda>c. id_c c \<noteq> id_c rootPrimary) allLinked)))"

text \<open>
  One attempt. With no survivor (\<open>primaries[0]\<close> is \<open>undefined\<close>) the loop is skipped and
  \<open>rootPrimary.id\<close> in step 5 throws.
\<close>

definition reconcile ::
  "nat \<Rightarrow> store \<Rightarrow> string option \<Rightarrow> string option \<Rightarrow> error + (store \<times> IdentifyResponse)" where
  "reconcile now st em ph =
     (let ms = matchingContacts st em ph in
      if ms = [] then
        (case create now st em ph None Primary of
           Inl err \<Rightarrow> Inl err
         | Inr (st', created) \<Rightarrow> Inr (st', buildResponse created []))
      else
        (case fetchPrimaries st (primaryIds ms) of
           Inl err \<Rightarrow> Inl err
         | Inr [] \<Rightarrow> Inl TypeError
         | Inr (rootPrimary # losers) \<Rightarrow>
             attachAndRespond now (mergeLoop now (id_c rootPrimary) losers st)
               em ph rootPrimary))"

section \<open>identify (service.ts:50-103)\<close>

text \<open>
  \<open>prisma.$transaction\<close>: the body runs on the store as it is, at the time \<open>clock\<close>; when
  the body throws, or when the store itself aborts the transaction (\<open>abort\<close>: a
  serialization failure, a timeout), the writes are rolled back and the error is thrown.
  The sequence behind \<open>id\<close> is rolled back with the rest (PostgreSQL would leave a gap in
  the ids).
\<close>

record attempt =
  abort :: "error option"
  clock :: nat

definition transaction ::
  "attempt \<Rightarrow> store \<Rightarrow> (nat \<Rightarrow> store \<Rightarrow> error + (store \<times> 'a)) \<Rightarrow> store \<times> (error + 'a)" where
  "transaction a st body =
     (case body (clock a) st of
        Inl err \<Rightarrow> (st, Inl err)
      | Inr (st', r) \<Rightarrow>
          (case abort a of Some err \<Rightarrow> (st, Inl err) | None \<Rightarrow> (st', Inr r)))"

text \<open>One transactional attempt: \<open>prisma.$transaction(tx => reconcile(tx, email, phoneNumber))\<close>.\<close>

definition reconcileTx ::
  "attempt \<Rightarrow> store \<Rightarrow> string option \<Rightarrow> string option
   \<Rightarrow> store \<times> (error + IdentifyResponse)" where
  "reconcileTx a st em ph = transaction a st (\<lambda>now s. reconcile now s em ph)"

text \<open>
  \<open>identify\<close> with its \<open>catch\<close>: \<open>a1\<close> and \<open>a2\<close> are the two transactions the store may
  run, \<open>others\<close> is what other writers commit between them.
\<close>

definition identify ::
  "attempt \<Rightarrow> (store \<Rightarrow> store) \<Rightarrow> attempt \<Rightarrow> store \<Rightarrow> string option \<Rightarrow> string option
   \<Rightarrow> store \<times> (error + IdentifyResponse)" where
  "identify a1 others a2 st em ph =
     (case reconcileTx a1 st em ph of
        (st1, Inr result) \<Rightarrow> (st1, Inr result)
      | (st1, Inl err) \<Rightarrow>
          if err = PrismaClientKnownRequestError PRISMA_UNIQUE_CONSTRAINT_CODE
          then reconcileTx a2 (others st1) em ph
          else (st1, Inl err))"

text \<open>A sequence of calls, each at its own time; \<open>None\<close> as soon as one of them fails.\<close>

fun reconcileAll :: "(nat \<times> string option \<times> string option) list \<Rightarrow> store \<Rightarrow> store option" where
  "reconcileAll [] st = Some st"
| "reconcileAll ((now, em, ph) # calls) st =
     (case reconcile now st em ph of
        Inl err \<Rightarrow> None
      | Inr (st', r) \<Rightarrow> reconcileAll calls st')"

section \<open>The invariants of the identity graph\<close>

text \<open>
  What the database itself enforces: the primary key and the foreign key
  \<open>linkedId \<rightarrow> id\<close>.
\<close>

definition wellFormed :: "store \<Rightarrow> bool" where
  "wellFormed st =
     (distinct (map id_c (rows st)) \<and>
      (\<forall>c\<in>set (rows st). \<forall>l. linkedId c = Some l \<longrightarrow> l \<in> id_c ` set (rows st)))"

definition liveRows :: "store \<Rightarrow> Contact list" where
  "liveRows st = filter live (rows st)"

text \<open>
  The forest of depth one: a live primary has no \<open>linkedId\<close>, a live secondary has the
  id of a live primary as its \<open>linkedId\<close>.
\<close>

definition forest :: "store \<Rightarrow> bool" where
  "forest st =
     (\<forall>c\<in>set (liveRows st).
        (linkPrecedence c = Primary \<longrightarrow> linkedId c = None) \<and>
        (linkPrecedence c = Secondary \<longrightarrow>
           (\<exists>d\<in>set (liveRows st). linkPrecedence d = Primary \<and> linkedId c = Some (id_c d))))"

text \<open>Every live row that the \<open>linkedId\<close> of a live row names is a primary.\<close>

definition linkedToPrimary :: "store \<Rightarrow> bool" where
  "linkedToPrimary st =
     (\<forall>c\<in>set (liveRows st). \<forall>d\<in>set (liveRows st).
        linkedId c = Some (id_c d) \<longrightarrow> linkPrecedence d = Primary)"

text \<open>Depth one: no live secondary is referenced by another live row's \<open>linkedId\<close>.\<close>

definition depthOne :: "store \<Rightarrow> bool" where
  "depthOne st =
     (\<forall>d\<in>set (liveRows st). \<forall>c\<in>set (liveRows st).
        linkPrecedence d = Secondary \<and> id_c c \<noteq> id_c d \<longrightarrow> linkedId c \<noteq> Some (id_c d))"

text \<open>
  Two rows share an email or a phone. The classes of the reflexive transitive closure of
  this relation on the live rows are the connected groups; rows are named by their ids.
\<close>

definition shares :: "Contact \<Rightarrow> Contact \<Rightarrow> bool" where
  "shares c d =
     ((email c \<noteq> None \<and> email c = email d) \<or>
      (phoneNumber c \<noteq> None \<and> phoneNumber c = phoneNumber d))"

definition shareIds :: "store \<Rightarrow> (nat \<times> nat) set" where
  "shareIds st =
     {(i, j). \<exists>c\<in>set (liveRows st). \<exists>d\<in>set (liveRows st).
                i = id_c c \<and> j = id_c d \<and> shares c d}"

definition sameClass :: "store \<Rightarrow> nat \<Rightarrow> nat \<Rightarrow> bool" where
  "sameClass st i j = ((i, j) \<in> (shareIds st)\<^sup>*)"

definition primariesInClass :: "store \<Rightarrow> nat \<Rightarrow> nat set" where
  "primariesInClass st i =
     {j. \<exists>d\<in>set (liveRows st). j = id_c d \<and> linkPrecedence d = Primary \<and> sameClass st i j}"

definition atMostOnePrimary :: "store \<Rightarrow> bool" where
  "atMostOnePrimary st =
     (\<forall>c\<in>set (liveRows st). \<forall>i j.
        i \<in> primariesInClass st (id_c c) \<and> j \<in> primariesInClass st (id_c c) \<longrightarrow> i = j)"

definition exactlyOnePrimary :: "store \<Rightarrow> bool" where
  "exactlyOnePrimary st =
     (\<forall>c\<in>set (liveRows st). \<exists>i. primariesInClass st (id_c c) = {i})"

text \<open>An input field as the validator hands it over: absent, or a non-empty string.\<close>

definition normalized :: "string option \<Rightarrow> bool" where
  "normalized v = (v \<noteq> Some [])"

text \<open>The clock does not run backwards: no row was created after \<open>now\<close>.\<close>

definition notInFuture :: "nat \<Rightarrow> store \<Rightarrow> bool" where
  "notInFuture now st = list_all (\<lambda>c. createdAt c \<le> now) (rows st)"

definition normalizedCall :: "nat \<times> string option \<times> string option \<Rightarrow> bool" where
  "normalizedCall call = (normalized (fst (snd call)) \<and> normalized (snd (snd call)))"

text \<open>
  The net effect of the merge loop on one row, for the survivor's id and the set of the
  losers' ids.
\<close>

definition mergedRow :: "nat \<Rightarrow> nat \<Rightarrow> nat set \<Rightarrow> Contact \<Rightarrow> Contact" where
  "mergedRow now rootId L c =
     (if id_c c \<in> L
      then c \<lparr> linkedId := Some rootId, linkPrecedence := Secondary, updatedAt := now \<rparr>
      else if linkedId c \<in> Some ` L \<and> live c
      then c \<lparr> linkedId := Some rootId, updatedAt := now \<rparr>
      else c)"

section \<open>Concrete rows and stores\<close>

text \<open>A live row that has never been updated.\<close>

definition row ::
  "nat \<Rightarrow> string option \<Rightarrow> string option \<Rightarrow> nat option \<Rightarrow> LinkPrecedence \<Rightarrow> nat \<Rightarrow> Contact" where
  "row i em ph l prec t =
     \<lparr> id_c = i, phoneNumber = ph, email = em, linkedId = l, linkPrecedence = prec,
       createdAt = t, updatedAt = t, deletedAt = None \<rparr>"

text \<open>A group whose two secondaries were created at the same instant; the store holds
  the one with the larger id first.\<close>

definition tieStore :: store where
  "tieStore =
     \<lparr> rows = [row 1 (Some ''a@t'') (Some ''100'') None Primary 1,
               row 3 (Some ''c@t'') (Some ''100'') (Some 1) Secondary 5,
               row 2 (Some ''b@t'') (Some ''100'') (Some 1) Secondary 5],
       nextId = 4 \<rparr>"

text \<open>The stores of scenarios 1 to 3 of the specification.\<close>

definition emptyStore :: store where
  "emptyStore = \<lparr> rows = [], nextId = 1 \<rparr>"

definition docRow :: Contact where
  "docRow = row 1 (Some ''doc@hv.edu'') (Some ''555-0100'') None Primary 10"

definition martyRow :: Contact where
  "martyRow = row 2 (Some ''marty@hv.edu'') (Some ''555-0100'') (Some 1) Secondary 20"

definition docStore :: store where
  "docStore = \<lparr> rows = [docRow], nextId = 2 \<rparr>"

definition docMartyStore :: store where
  "docMartyStore = \<lparr> rows = [docRow, martyRow], nextId = 3 \<rparr>"

text \<open>
  The secondary of scenario 2 soft-deleted: no query sees it, the unique index still holds
  its triple.
\<close>

definition tombstoneStore :: store where
  "tombstoneStore = \<lparr> rows = [docRow, martyRow \<lparr> deletedAt := Some 30 \<rparr>], nextId = 3 \<rparr>"

text \<open>What \<open>identify("", null)\<close> leaves on the empty store.\<close>

definition blankStore :: store where
  "blankStore = \<lparr> rows = [row 1 (Some []) None None Primary 10], nextId = 2 \<rparr>"

text \<open>
  A group whose primary was soft-deleted after the secondary 2 had been attached, and an
  unrelated primary 3.
\<close>

definition orphanStore :: store where
  "orphanStore =
     \<lparr> rows = [(row 1 (Some ''old@hv.edu'') (Some ''111'') None Primary 10) \<lparr> deletedAt := Some 40 \<rparr>,
               row 2 (Some ''a@hv.edu'') (Some ''111'') (Some 1) Secondary 20,
               row 3 (Some ''b@hv.edu'') (Some ''333'') None Primary 30],
       nextId = 4 \<rparr>"

text \<open>Two primaries created at the same instant; the store holds the larger id first.\<close>

definition tiedPrimariesStore :: store where
  "tiedPrimariesStore =
     \<lparr> rows = [row 2 (Some ''b@hv.edu'') (Some ''222'') None Primary 5,
               row 1 (Some ''a@hv.edu'') (Some ''111'') None Primary 5],
       nextId = 3 \<rparr>"

text \<open>
  A transaction the store lets commit, and one it aborts with Prisma's code for a write
  conflict under serializable isolation.
\<close>

definition cleanAttempt :: "nat \<Rightarrow> attempt" where
  "cleanAttempt t = \<lparr> abort = None, clock = t \<rparr>"

definition abortedAttempt :: "nat \<Rightarrow> attempt" where
  "abortedAttempt t = \<lparr> abort = Some (PrismaClientKnownRequestError ''P2034''), clock = t \<rparr>"

text \<open>The stores two of the calls below leave.\<close>

definition tiedPrimariesMerged :: store where
  "tiedPrimariesMerged =
     \<lparr> rows = [row 2 (Some ''b@hv.edu'') (Some ''222'') None Primary 5,
               (row 1 (Some ''a@hv.edu'') (Some ''111'') (Some 2) Secondary 5) \<lparr> updatedAt := 9 \<rparr>],
       nextId = 3 \<rparr>"

definition orphanStoreAfter :: store where
  "orphanStoreAfter =
     \<lparr> rows = rows orphanStore @ [row 4 (Some ''a@hv.edu'') (Some ''333'') (Some 3) Secondary 50],
       nextId = 5 \<rparr>"

text \<open>Scenario 5 (triangular cascade) and scenario 4 (merge of two primaries).\<close>

definition cascadeCalls :: "(nat \<times> string option \<times> string option) list" where
  "cascadeCalls =
     [(10, Some ''a'', Some ''111''), (20, Some ''b'', Some ''222''),
      (30, Some ''c'', Some ''333''), (40, Some ''a'', Some ''222''),
      (50, Some ''c'', Some ''111'')]"

definition cascadeStore :: store where
  "cascadeStore =
     \<lparr> rows = [row 1 (Some ''a'') (Some ''111'') None Primary 10,
               (row 2 (Some ''b'') (Some ''222'') (Some 1) Secondary 20) \<lparr> updatedAt := 40 \<rparr>,
               (row 3 (Some ''c'') (Some ''333'') (Some 1) Secondary 30) \<lparr> updatedAt := 50 \<rparr>],
       nextId = 4 \<rparr>"

definition mergeCalls :: "(nat \<times> string option \<times> string option) list" where
  "mergeCalls =
     [(10, Some ''george@hv.edu'', Some ''919191''), (20, Some ''biff@hv.edu'', Some ''717171''),
      (30, Some ''george@hv.edu'', Some ''717171'')]"

definition mergedGroupsStore :: store where
  "mergedGroupsStore =
     \<lparr> rows = [row 1 (Some ''george@hv.edu'') (Some ''919191'') None Primary 10,
               (row 2 (Some ''biff@hv.edu'') (Some ''717171'') (Some 1) Secondary 20)
                 \<lparr> updatedAt := 30 \<rparr>],
       nextId = 3 \<rparr>"

text \<open>Two calls with the empty string as email.\<close>

definition blankCalls :: "(nat \<times> string option \<times> string option) list" where
  "blankCalls = [(10, Some [], Some ''1''), (20, Some [], Some ''2'')]"

definition twoBlankStore :: store where
  "twoBlankStore =
     \<lparr> rows = [row 1 (Some []) (Some ''1'') None Primary 10,
               row 2 (Some []) (Some ''2'') None Primary 20],
       nextId = 3 \<rparr>"

text \<open>A store whose secondary is dated after the call that follows, and that call's result.\<close>

definition futureStore :: store where
  "futureStore =
     \<lparr> rows = [row 1 (Some ''a@hv.edu'') (Some ''100'') None Primary 10,
               row 2 (Some ''b@hv.edu'') (Some ''100'') (Some 1) Secondary 200],
       nextId = 3 \<rparr>"

definition futureStoreAfter :: store where
  "futureStoreAfter =
     \<lparr> rows = [row 1 (Some ''a@hv.edu'') (Some ''100'') None Primary 10,
               row 2 (Some ''b@hv.edu'') (Some ''100'') (Some 1) Secondary 200,
               row 3 (Some ''c@hv.edu'') (Some ''100'') (Some 1) Secondary 150],
       nextId = 4 \<rparr>"

section \<open>Properties of the response builder\<close>

lemma collect_append: "collect (xs @ ys) acc = collect ys (collect xs acc)"
  by (induction xs acc rule: collect.induct) simp_all

lemma collect_fst_prefix: "\<exists>zs. fst (collect ss (es, ps)) = es @ zs"
proof (induction ss arbitrary: es ps)
  case Nil
  show ?case by simp
next
  case (Cons s ss)
  obtain es' ps' where step: "collect (s # ss) (es, ps) = collect ss (es', ps')"
    and pre: "\<exists>ys. es' = es @ ys"
    by (cases "email s") auto
  from Cons.IH[of es' ps'] pre show ?case
    unfolding step by auto
qed

lemma collect_snd_prefix: "\<exists>zs. snd (collect ss (es, ps)) = ps @ zs"
proof (induction ss arbitrary: es ps)
  case Nil
  show ?case by simp
next
  case (Cons s ss)
  obtain es' ps' where step: "collect (s # ss) (es, ps) = collect ss (es', ps')"
    and pre: "\<exists>ys. ps' = ps @ ys"
    by (cases "phoneNumber s") auto
  from Cons.IH[of es' ps'] pre show ?case
    unfolding step by auto
qed

lemma collect_distinct:
  "distinct es \<Longrightarrow> distinct ps \<Longrightarrow>
   distinct (fst (collect ss (es, ps))) \<and> distinct (snd (collect ss (es, ps)))"
  by (induction ss arbitrary: es ps) (auto split: option.splits)

lemma collect_fst_set:
  "set (fst (collect ss (es, ps))) = set es \<union> {e. Some e \<in> email ` set ss \<and> e \<noteq> []}"
  by (induction ss arbitrary: es ps) (auto split: option.splits)

lemma collect_snd_set:
  "set (snd (collect ss (es, ps))) = set ps \<union> {p. Some p \<in> phoneNumber ` set ss \<and> p \<noteq> []}"
  by (induction ss arbitrary: es ps) (auto split: option.splits)

lemma pushIfTruthy_distinct: "distinct (pushIfTruthy v)"
  by (simp add: pushIfTruthy_def split: option.splits)

lemma pushIfTruthy_set: "set (pushIfTruthy v) = {x. v = Some x \<and> x \<noteq> []}"
  by (auto simp: pushIfTruthy_def split: option.splits)

lemma emails_buildResponse:
  "emails (buildResponse p ss) =
     fst (collect ss (pushIfTruthy (email p), pushIfTruthy (phoneNumber p)))"
  by (simp add: buildResponse_def split: prod.splits)

lemma phoneNumbers_buildResponse:
  "phoneNumbers (buildResponse p ss) =
     snd (collect ss (pushIfTruthy (email p), pushIfTruthy (phoneNumber p)))"
  by (simp add: buildResponse_def split: prod.splits)

lemma ids_buildResponse:
  "primaryContactId (buildResponse p ss) = id_c p"
  "secondaryContactIds (buildResponse p ss) = map id_c ss"
  by (simp_all add: buildResponse_def split: prod.splits)

lemma emails_snoc:
  "emails (buildResponse p (ss @ [s])) =
     (case email s of
        Some e \<Rightarrow> if e \<noteq> [] \<and> e \<notin> set (emails (buildResponse p ss))
                  then emails (buildResponse p ss) @ [e] else emails (buildResponse p ss)
      | None \<Rightarrow> emails (buildResponse p ss))"
  by (cases "collect ss (pushIfTruthy (email p), pushIfTruthy (phoneNumber p))")
     (simp add: emails_buildResponse collect_append split: option.splits)

lemma phones_snoc:
  "phoneNumbers (buildResponse p (ss @ [s])) =
     (case phoneNumber s of
        Some e \<Rightarrow> if e \<noteq> [] \<and> e \<notin> set (phoneNumbers (buildResponse p ss))
                  then phoneNumbers (buildResponse p ss) @ [e] else phoneNumbers (buildResponse p ss)
      | None \<Rightarrow> phoneNumbers (buildResponse p ss))"
  by (cases "collect ss (pushIfTruthy (email p), pushIfTruthy (phoneNumber p))")
     (simp add: phoneNumbers_buildResponse collect_append split: option.splits)

lemma emails_head:
  "email p = Some e \<Longrightarrow> e \<noteq> [] \<Longrightarrow> \<exists>zs. emails (buildResponse p ss) = e # zs"
  using collect_fst_prefix[of ss "pushIfTruthy (email p)" "pushIfTruthy (phoneNumber p)"]
  by (auto simp: emails_buildResponse pushIfTruthy_def)

lemma phones_head:
  "phoneNumber p = Some e \<Longrightarrow> e \<noteq> [] \<Longrightarrow> \<exists>zs. phoneNumbers (buildResponse p ss) = e # zs"
  using collect_snd_prefix[of ss "pushIfTruthy (email p)" "pushIfTruthy (phoneNumber p)"]
  by (auto simp: phoneNumbers_buildResponse pushIfTruthy_def)

text \<open>The arrays in closed form: the present values in traversal order, each at its first place.\<close>

lemma emails_exact:
  "emails (buildResponse p ss) =
     rev (remdups (rev (map the (filter (\<lambda>v. v \<noteq> None \<and> v \<noteq> Some [])
                                           (map email (p # ss))))))"
proof (induction ss rule: rev_induct)
  case Nil
  show ?case
    by (cases "email p") (simp_all add: emails_buildResponse pushIfTruthy_def)
next
  case (snoc s ss)
  show ?case
    unfolding emails_snoc snoc.IH
    by (cases "email s") auto
qed

lemma phoneNumbers_exact:
  "phoneNumbers (buildResponse p ss) =
     rev (remdups (rev (map the (filter (\<lambda>v. v \<noteq> None \<and> v \<noteq> Some [])
                                           (map phoneNumber (p # ss))))))"
proof (induction ss rule: rev_induct)
  case Nil
  show ?case
    by (cases "phoneNumber p") (simp_all add: phoneNumbers_buildResponse pushIfTruthy_def)
next
  case (snoc s ss)
  show ?case
    unfolding phones_snoc snoc.IH
    by (cases "phoneNumber s") auto
qed

lemma buildResponse_fields:
  "buildResponse p ss =
     \<lparr> primaryContactId = id_c p,
       emails = rev (remdups (rev (map the (filter (\<lambda>v. v \<noteq> None \<and> v \<noteq> Some [])
                                                  (map email (p # ss)))))),
       phoneNumbers = rev (remdups (rev (map the (filter (\<lambda>v. v \<noteq> None \<and> v \<noteq> Some [])
                                                        (map phoneNumber (p # ss)))))),
       secondaryContactIds = map id_c ss \<rparr>"
  by (rule IdentifyResponse.equality)
     (simp_all add: emails_exact phoneNumbers_exact ids_buildResponse del: remdups.simps)




section \<open>The effect of the writes\<close>

lemma create_Inr:
  assumes "create now st em ph l prec = Inr (st', c)"
  shows "c = \<lparr> id_c = nextId st, phoneNumber = ph, email = em, linkedId = l,
               linkPrecedence = prec, createdAt = now, updatedAt = now, deletedAt = None \<rparr>"
    and "rows st' = rows st @ [c]"
    and "nextId st' = Suc (nextId st)"
    and "nextId st \<notin> id_c ` set (rows st)"
  using assms by (auto simp: create_def newRow_def Let_def split: if_splits)

lemma mergedRow_fields [simp]:
  "id_c (mergedRow now rid L c) = id_c c"
  "email (mergedRow now rid L c) = email c"
  "phoneNumber (mergedRow now rid L c) = phoneNumber c"
  "createdAt (mergedRow now rid L c) = createdAt c"
  "deletedAt (mergedRow now rid L c) = deletedAt c"
  "live (mergedRow now rid L c) = live c"
  by (simp_all add: mergedRow_def live_def)

lemma mergedRow_empty [simp]: "mergedRow now rid {} c = c"
  by (simp add: mergedRow_def)

lemma step_rows:
  "rows (relinkChildren now d rid (demote now d rid st)) =
     map (mergedRow now rid {d}) (rows st)"
  if "rid \<noteq> d"
  using that by (auto simp: relinkChildren_def demote_def mergedRow_def live_def)

lemma step_nextId [simp]:
  "nextId (relinkChildren now d rid (demote now d rid st)) = nextId st"
  by (simp add: relinkChildren_def demote_def)

lemma mergedRow_compose:
  assumes "rid \<noteq> d" "rid \<notin> L"
  shows "mergedRow now rid L (mergedRow now rid {d} c) = mergedRow now rid (insert d L) c"
  using assms by (auto simp: mergedRow_def live_def)

lemma mergeLoop_rows:
  "rid \<notin> id_c ` set ls \<Longrightarrow>
   rows (mergeLoop now rid ls st) = map (mergedRow now rid (id_c ` set ls)) (rows st)"
proof (induction ls arbitrary: st)
  case Nil
  show ?case by (simp add: map_idI)
next
  case (Cons d ls)
  from Cons.prems have ne: "rid \<noteq> id_c d" and notin: "rid \<notin> id_c ` set ls" by auto
  show ?case
    using Cons.IH[OF notin] ne notin
    by (simp add: step_rows mergedRow_compose)
qed

lemma mergeLoop_nextId [simp]: "nextId (mergeLoop now rid ls st) = nextId st"
  by (induction ls arbitrary: st) simp_all

lemma set_orderBy [simp]: "set (orderByCreatedAt cs) = set cs"
  by (simp add: orderByCreatedAt_def)

lemma orderBy_Nil [simp]: "(orderByCreatedAt cs = []) = (cs = [])"
  using set_orderBy[of cs] by (simp only: set_empty[symmetric])

lemma fetchPrimaries_Inr:
  assumes "fetchPrimaries st ids = Inr ps"
  shows "None \<notin> set ids"
    and "ps = orderByCreatedAt (filter (\<lambda>c. Some (id_c c) \<in> set ids \<and> live c) (rows st))"
  using assms by (auto simp: fetchPrimaries_def split: if_splits)

lemma fetched_in_rows:
  "fetchPrimaries st ids = Inr ps \<Longrightarrow> c \<in> set ps \<Longrightarrow> c \<in> set (rows st) \<and> live c \<and> Some (id_c c) \<in> set ids"
  by (auto dest!: fetchPrimaries_Inr(2))

text \<open>The shape of a successful call.\<close>

lemma reconcile_Inr_cases:
  assumes "reconcile now st em ph = Inr (st', r)"
  obtains
    (fresh) created where "matchingContacts st em ph = []"
      "create now st em ph None Primary = Inr (st', created)"
      "r = buildResponse created []"
  | (group) rootPrimary losers where "matchingContacts st em ph \<noteq> []"
      "fetchPrimaries st (primaryIds (matchingContacts st em ph)) = Inr (rootPrimary # losers)"
      "attachAndRespond now (mergeLoop now (id_c rootPrimary) losers st) em ph rootPrimary
         = Inr (st', r)"
proof (cases "matchingContacts st em ph = []")
  case True
  with assms obtain created where
    "create now st em ph None Primary = Inr (st', created)" "r = buildResponse created []"
    by (auto simp: reconcile_def split: sum.splits)
  with True show ?thesis by (rule fresh)
next
  case False
  with assms obtain rootPrimary losers where
    "fetchPrimaries st (primaryIds (matchingContacts st em ph)) = Inr (rootPrimary # losers)"
    "attachAndRespond now (mergeLoop now (id_c rootPrimary) losers st) em ph rootPrimary
       = Inr (st', r)"
    by (auto simp: reconcile_def split: sum.splits list.splits)
  with False show ?thesis by (rule group)
qed

lemma attachAndRespond_Inr_cases:
  assumes "attachAndRespond now st em ph rootPrimary = Inr (st', r)"
  obtains
    (attach) newSecondary where "attachNeeded em ph (allLinkedOf st (id_c rootPrimary))"
      "create now st em ph (Some (id_c rootPrimary)) Secondary = Inr (st', newSecondary)"
      "r = buildResponse rootPrimary
             (filter (\<lambda>c. id_c c \<noteq> id_c rootPrimary)
                (allLinkedOf st (id_c rootPrimary) @ [newSecondary]))"
  | (keep) "\<not> attachNeeded em ph (allLinkedOf st (id_c rootPrimary))" "st' = st"
      "r = buildResponse rootPrimary
             (filter (\<lambda>c. id_c c \<noteq> id_c rootPrimary) (allLinkedOf st (id_c rootPrimary)))"
proof (cases "attachNeeded em ph (allLinkedOf st (id_c rootPrimary))")
  case True
  with assms obtain n where
    "create now st em ph (Some (id_c rootPrimary)) Secondary = Inr (st', n)"
    "r = buildResponse rootPrimary
           (filter (\<lambda>c. id_c c \<noteq> id_c rootPrimary) (allLinkedOf st (id_c rootPrimary) @ [n]))"
    by (auto simp: attachAndRespond_def split: sum.splits)
  with True show ?thesis by (rule attach)
next
  case False
  with assms have "st' = st"
    "r = buildResponse rootPrimary
           (filter (\<lambda>c. id_c c \<noteq> id_c rootPrimary) (allLinkedOf st (id_c rootPrimary)))"
    by (auto simp: attachAndRespond_def)
  with False show ?thesis by (rule keep)
qed

lemma distinct_ids_orderBy:
  "distinct (map id_c (orderByCreatedAt cs)) = distinct (map id_c cs)"
  by (simp add: orderByCreatedAt_def distinct_map)

lemma fetched_ids_distinct:
  assumes "distinct (map id_c (rows st))" "fetchPrimaries st ids = Inr (rootPrimary # losers)"
  shows "id_c rootPrimary \<notin> id_c ` set losers"
proof -
  have "distinct (map id_c (rootPrimary # losers))"
    using assms(1) fetchPrimaries_Inr(2)[OF assms(2)]
    by (simp add: distinct_ids_orderBy distinct_map_filter)
  then show ?thesis by simp
qed

lemma step_ids:
  "map id_c (rows (relinkChildren now d rid (demote now d rid st))) = map id_c (rows st)"
  by (simp add: relinkChildren_def demote_def comp_def)

lemma mergeLoop_ids: "map id_c (rows (mergeLoop now rid ls st)) = map id_c (rows st)"
  by (induction ls arbitrary: st) (simp_all add: step_ids)

section \<open>The inserted secondary comes last\<close>

text \<open>
  C10. When a successful call of \<open>reconcile\<close> inserts a new secondary contact (a row \<open>c\<close>
  of the resulting store whose id the store did not hold before, with precedence
  secondary), the payload's \<open>secondaryContactIds\<close> is non-empty and its last element is
  the id of that row.
\<close>

theorem new_secondary_is_last:
  assumes "reconcile now st em ph = Inr (st', r)"
    and "c \<in> set (rows st')" and "id_c c \<notin> id_c ` set (rows st)"
    and "linkPrecedence c = Secondary"
  shows "secondaryContactIds r \<noteq> [] \<and> last (secondaryContactIds r) = id_c c"
  using assms(1)
proof (cases rule: reconcile_Inr_cases)
  case (fresh created)
  from create_Inr(1,2)[OF fresh(2)] assms(2,3,4) show ?thesis by auto
next
  case (group rootPrimary losers)
  have root_in: "rootPrimary \<in> set (rows st)"
    using fetched_in_rows[OF group(2), of rootPrimary] by simp
  have ids: "id_c ` set (rows (mergeLoop now (id_c rootPrimary) losers st)) = id_c ` set (rows st)"
    using mergeLoop_ids[of now "id_c rootPrimary" losers st] by (metis set_map)
  from group(3) show ?thesis
  proof (cases rule: attachAndRespond_Inr_cases)
    case (attach newSecondary)
    note cr = create_Inr[OF attach(2)]
    from cr(2) assms(2,3) ids have c: "c = newSecondary" by auto
    have "id_c newSecondary = nextId st" using cr(1) by simp
    moreover have "id_c rootPrimary \<in> id_c ` set (rows st)" using root_in by simp
    ultimately have "id_c newSecondary \<noteq> id_c rootPrimary"
      using cr(4) ids by auto
    then show ?thesis
      using attach(3) c by (simp add: ids_buildResponse)
  next
    case keep
    with assms(2,3) ids show ?thesis by auto
  qed
qed

text \<open>
  The theorem at the second call of the spec's scenario 2: the row 2 is inserted and is
  the last secondary of the payload.
\<close>

theorem new_secondary_is_last_witness:
  "reconcile 20 docStore (Some ''marty@hv.edu'') (Some ''555-0100'') =
     Inr (docMartyStore, buildResponse docRow [martyRow]) \<and>
   martyRow \<in> set (rows docMartyStore) \<and> id_c martyRow \<notin> id_c ` set (rows docStore) \<and>
   linkPrecedence martyRow = Secondary \<and>
   secondaryContactIds (buildResponse docRow [martyRow]) \<noteq> [] \<and>
   last (secondaryContactIds (buildResponse docRow [martyRow])) = id_c martyRow"
proof -
  have h1: "reconcile 20 docStore (Some ''marty@hv.edu'') (Some ''555-0100'') =
     Inr (docMartyStore, buildResponse docRow [martyRow])" by code_simp
  have h2: "martyRow \<in> set (rows docMartyStore)" by code_simp
  have h3: "id_c martyRow \<notin> id_c ` set (rows docStore)" by code_simp
  have h4: "linkPrecedence martyRow = Secondary" by code_simp
  from new_secondary_is_last[OF h1 h2 h3 h4] h1 h2 h3 h4 show ?thesis by simp
qed

section \<open>The exact-duplicate guard\<close>

lemma hasNewEmail_no_row:
  "hasNewEmail em cs \<Longrightarrow> normalized em \<Longrightarrow> c \<in> set cs \<Longrightarrow> email c \<noteq> em"
  by (force simp: hasNewEmail_def existingEmails_def normalized_def truthy_def image_iff)

lemma hasNewPhone_no_row:
  "hasNewPhone ph cs \<Longrightarrow> normalized ph \<Longrightarrow> c \<in> set cs \<Longrightarrow> phoneNumber c \<noteq> ph"
  by (force simp: hasNewPhone_def existingPhones_def normalized_def truthy_def image_iff)

text \<open>
  C9. For an input as the validator hands it over (each field absent or a non-empty
  string) and for every group: if the input carries a new email or a new phone, no row of
  the group is an exact duplicate; hence the attach condition
  \<open>(hasNewEmail || hasNewPhone) && !exactDuplicate\<close> is \<open>hasNewEmail || hasNewPhone\<close>.
\<close>

theorem exactDuplicate_guard_redundant:
  assumes "normalized em" and "normalized ph"
  shows "((hasNewEmail em cs \<or> hasNewPhone ph cs) \<longrightarrow> \<not> exactDuplicate em ph cs) \<and>
         attachNeeded em ph cs = (hasNewEmail em cs \<or> hasNewPhone ph cs)"
proof -
  have "\<not> exactDuplicate em ph cs" if "hasNewEmail em cs \<or> hasNewPhone ph cs"
  proof
    assume "exactDuplicate em ph cs"
    then obtain c where c: "c \<in> set cs" "em = None \<or> email c = em" "ph = None \<or> phoneNumber c = ph"
      by (auto simp: exactDuplicate_def list_ex_iff)
    from that show False
    proof
      assume h: "hasNewEmail em cs"
      then have "em \<noteq> None" by (simp add: hasNewEmail_def)
      with c(2) hasNewEmail_no_row[OF h assms(1) c(1)] show False by simp
    next
      assume h: "hasNewPhone ph cs"
      then have "ph \<noteq> None" by (simp add: hasNewPhone_def)
      with c(3) hasNewPhone_no_row[OF h assms(2) c(1)] show False by simp
    qed
  qed
  then show ?thesis by (auto simp: attachNeeded_def)
qed

text \<open>
  The theorem for the input of scenario 2 and the group of the row 1.
\<close>

theorem exactDuplicate_guard_redundant_witness:
  "normalized (Some ''marty@hv.edu'') \<and> normalized (Some ''555-0100'') \<and>
   hasNewEmail (Some ''marty@hv.edu'') [docRow] \<and>
   \<not> exactDuplicate (Some ''marty@hv.edu'') (Some ''555-0100'') [docRow] \<and>
   attachNeeded (Some ''marty@hv.edu'') (Some ''555-0100'') [docRow]"
proof -
  have h1: "normalized (Some ''marty@hv.edu'')" by code_simp
  have h2: "normalized (Some ''555-0100'')" by code_simp
  have h3: "hasNewEmail (Some ''marty@hv.edu'') [docRow]" by code_simp
  from exactDuplicate_guard_redundant[OF h1 h2, of "[docRow]"] h1 h2 h3 show ?thesis by simp
qed

text \<open>
  The empty string is the one value the hypothesis leaves out. \<open>identifySchema\<close> turns an
  empty field into \<open>null\<close> before \<open>identify\<close> is called, so no request carries it; it
  is not truthy, \<open>filter(Boolean)\<close> drops it from \<open>existingEmails\<close>, and it would count
  as new whatever the group holds.
\<close>

lemma empty_string_counts_as_new:
  "hasNewEmail (Some []) cs \<and> hasNewPhone (Some []) cs"
  by (simp add: hasNewEmail_def existingEmails_def hasNewPhone_def existingPhones_def truthy_def)

section \<open>The retry of identify\<close>

lemma transaction_failure_rolls_back:
  "transaction a st body = (st1, Inl err) \<Longrightarrow> st1 = st"
  by (auto simp: transaction_def split: sum.splits option.splits)

text \<open>
  C4 (as amended). \<open>identify\<close> returns the result of the first transaction when it
  commits. When the first transaction fails with the unique-constraint violation
  \<open>P2002\<close>, its writes are rolled back and the whole sequence runs once more, in a second
  transaction on the store as it then is; the result of that retry, failure included, is
  the result of \<open>identify\<close>. A first failure of any other kind, the serialization failure
  among them, is surfaced without a retry, the store unchanged.
\<close>

theorem identify_retries_unique_conflict_only:
  "(reconcileTx a1 st em ph = (st1, Inr r) \<longrightarrow>
      identify a1 others a2 st em ph = (st1, Inr r)) \<and>
   (reconcileTx a1 st em ph =
      (st1, Inl (PrismaClientKnownRequestError PRISMA_UNIQUE_CONSTRAINT_CODE)) \<longrightarrow>
      st1 = st \<and> identify a1 others a2 st em ph = reconcileTx a2 (others st) em ph) \<and>
   (reconcileTx a1 st em ph = (st1, Inl err) \<and>
    err \<noteq> PrismaClientKnownRequestError PRISMA_UNIQUE_CONSTRAINT_CODE \<longrightarrow>
      st1 = st \<and> identify a1 others a2 st em ph = (st, Inl err))"
  using transaction_failure_rolls_back[of a1 st "\<lambda>now s. reconcile now s em ph" st1]
  by (auto simp: identify_def reconcileTx_def)

text \<open>
  The three cases of the theorem: a unique conflict with a soft-deleted row (the retry
  fails in the same way and its error is surfaced), a transaction the store aborts
  (surfaced, no retry), and a first attempt that commits.
\<close>

theorem identify_retries_unique_conflict_only_witness:
  "reconcileTx (cleanAttempt 50) tombstoneStore (Some ''marty@hv.edu'') (Some ''555-0100'') =
     (tombstoneStore, Inl (PrismaClientKnownRequestError PRISMA_UNIQUE_CONSTRAINT_CODE)) \<and>
   identify (cleanAttempt 50) id (cleanAttempt 60) tombstoneStore
       (Some ''marty@hv.edu'') (Some ''555-0100'') =
     reconcileTx (cleanAttempt 60) (id tombstoneStore) (Some ''marty@hv.edu'') (Some ''555-0100'') \<and>
   reconcileTx (abortedAttempt 10) emptyStore (Some ''doc@hv.edu'') (Some ''555-0100'') =
     (emptyStore, Inl (PrismaClientKnownRequestError ''P2034'')) \<and>
   PrismaClientKnownRequestError ''P2034'' \<noteq>
     PrismaClientKnownRequestError PRISMA_UNIQUE_CONSTRAINT_CODE \<and>
   identify (abortedAttempt 10) id (cleanAttempt 20) emptyStore
       (Some ''doc@hv.edu'') (Some ''555-0100'') =
     (emptyStore, Inl (PrismaClientKnownRequestError ''P2034'')) \<and>
   reconcileTx (cleanAttempt 10) emptyStore (Some ''doc@hv.edu'') (Some ''555-0100'') =
     (docStore, Inr (buildResponse docRow [])) \<and>
   identify (cleanAttempt 10) id (cleanAttempt 20) emptyStore
       (Some ''doc@hv.edu'') (Some ''555-0100'') =
     (docStore, Inr (buildResponse docRow []))"
proof -
  have h1: "reconcileTx (cleanAttempt 50) tombstoneStore (Some ''marty@hv.edu'') (Some ''555-0100'') =
     (tombstoneStore, Inl (PrismaClientKnownRequestError PRISMA_UNIQUE_CONSTRAINT_CODE))"
    by code_simp
  have h2: "reconcileTx (abortedAttempt 10) emptyStore (Some ''doc@hv.edu'') (Some ''555-0100'') =
     (emptyStore, Inl (PrismaClientKnownRequestError ''P2034''))" by code_simp
  have h3: "PrismaClientKnownRequestError ''P2034'' \<noteq>
     PrismaClientKnownRequestError PRISMA_UNIQUE_CONSTRAINT_CODE" by code_simp
  have h4: "reconcileTx (cleanAttempt 10) emptyStore (Some ''doc@hv.edu'') (Some ''555-0100'') =
     (docStore, Inr (buildResponse docRow []))" by code_simp
  from identify_retries_unique_conflict_only[of "cleanAttempt 50" tombstoneStore
      "Some ''marty@hv.edu''" "Some ''555-0100''" tombstoneStore "buildResponse docRow []" id "cleanAttempt 60"
      TypeError]
    identify_retries_unique_conflict_only[of "abortedAttempt 10" emptyStore
      "Some ''doc@hv.edu''" "Some ''555-0100''" emptyStore "buildResponse docRow []" id "cleanAttempt 20"
      "PrismaClientKnownRequestError ''P2034''"]
    identify_retries_unique_conflict_only[of "cleanAttempt 10" emptyStore
      "Some ''doc@hv.edu''" "Some ''555-0100''" docStore "buildResponse docRow []" id
      "cleanAttempt 20" TypeError]
    h1 h2 h3 h4
  show ?thesis by simp
qed

text \<open>
  C4 as stated fails for the serialization failure: the store aborts the first
  transaction with Prisma's write-conflict code, a second attempt would commit, and
  \<open>identify\<close> surfaces the first error without making it.
\<close>

theorem identify_serialization_counterexample:
  "reconcileTx (abortedAttempt 10) emptyStore (Some ''doc@hv.edu'') (Some ''555-0100'') =
     (emptyStore, Inl (PrismaClientKnownRequestError ''P2034'')) \<and>
   reconcileTx (cleanAttempt 10) (id emptyStore) (Some ''doc@hv.edu'') (Some ''555-0100'') =
     (docStore, Inr (buildResponse docRow [])) \<and>
   identify (abortedAttempt 10) id (cleanAttempt 10) emptyStore
       (Some ''doc@hv.edu'') (Some ''555-0100'') =
     (emptyStore, Inl (PrismaClientKnownRequestError ''P2034''))"
  by code_simp

section \<open>Matches without a live root\<close>

lemma reconcile_no_root:
  assumes "matchingContacts st em ph \<noteq> []"
    and "\<forall>m\<in>set (matchingContacts st em ph).
           \<exists>l. rootIdOf m = Some l \<and> l \<notin> id_c ` set (liveRows st)"
  shows "reconcile now st em ph = Inl TypeError"
proof -
  let ?ms = "matchingContacts st em ph"
  have none: "None \<notin> set (primaryIds ?ms)"
    using assms(2) by (auto simp: primaryIds_def)
  have "filter (\<lambda>c. Some (id_c c) \<in> set (primaryIds ?ms) \<and> live c) (rows st) = []"
  proof -
    have "\<not> (Some (id_c c) \<in> set (primaryIds ?ms) \<and> live c)" if "c \<in> set (rows st)" for c
    proof
      assume h: "Some (id_c c) \<in> set (primaryIds ?ms) \<and> live c"
      then obtain m where m: "m \<in> set ?ms" "rootIdOf m = Some (id_c c)"
        by (auto simp: primaryIds_def)
      from assms(2) m have "id_c c \<notin> id_c ` set (liveRows st)" by fastforce
      moreover have "c \<in> set (liveRows st)" using that h by (simp add: liveRows_def)
      ultimately show False by simp
    qed
    then show ?thesis by (simp add: filter_empty_conv)
  qed
  then have "fetchPrimaries st (primaryIds ?ms) = Inr []"
    using none by (simp add: fetchPrimaries_def)
  with assms(1) show ?thesis by (simp add: reconcile_def)
qed

lemma create_error:
  "create now st em ph l prec = Inl err \<Longrightarrow>
   err = PrismaClientKnownRequestError PRISMA_UNIQUE_CONSTRAINT_CODE"
  by (auto simp: create_def Let_def split: if_splits)

lemma attachAndRespond_error:
  "attachAndRespond now st em ph rootPrimary = Inl err \<Longrightarrow>
   err = PrismaClientKnownRequestError PRISMA_UNIQUE_CONSTRAINT_CODE"
  by (auto simp: attachAndRespond_def Let_def dest: create_error split: if_splits sum.splits)

text \<open>
  C6 (as amended). When the match set is not empty and every matched row resolves to an
  id that no live row has (every root is missing or soft-deleted), \<open>reconcile\<close> throws a
  \<open>TypeError\<close> (there is no \<open>InvariantBroken\<close> in the code), and \<open>identify\<close> surfaces it
  without a retry, the store unchanged. When the fetch returns at least one live root,
  the call goes on with the rows fetched and throws no \<open>TypeError\<close>.
\<close>

theorem dangling_roots_throw:
  "(matchingContacts st em ph \<noteq> [] \<and>
    (\<forall>m\<in>set (matchingContacts st em ph).
       \<exists>l. rootIdOf m = Some l \<and> l \<notin> id_c ` set (liveRows st)) \<longrightarrow>
      reconcile now st em ph = Inl TypeError \<and>
      identify a1 others a2 st em ph = (st, Inl TypeError)) \<and>
   (matchingContacts st em ph \<noteq> [] \<and>
    fetchPrimaries st (primaryIds (matchingContacts st em ph)) = Inr (rootPrimary # losers) \<longrightarrow>
      reconcile now st em ph =
        attachAndRespond now (mergeLoop now (id_c rootPrimary) losers st) em ph rootPrimary \<and>
      reconcile now st em ph \<noteq> Inl TypeError)"
proof (intro conjI impI)
  assume h: "matchingContacts st em ph \<noteq> [] \<and>
    (\<forall>m\<in>set (matchingContacts st em ph).
       \<exists>l. rootIdOf m = Some l \<and> l \<notin> id_c ` set (liveRows st))"
  then have r: "reconcile t st em ph = Inl TypeError" for t
    using reconcile_no_root[of st em ph t] by blast
  show "reconcile now st em ph = Inl TypeError" by (rule r)
  show "identify a1 others a2 st em ph = (st, Inl TypeError)"
    by (simp add: identify_def reconcileTx_def transaction_def r)
next
  assume h: "matchingContacts st em ph \<noteq> [] \<and>
    fetchPrimaries st (primaryIds (matchingContacts st em ph)) = Inr (rootPrimary # losers)"
  then show eq: "reconcile now st em ph =
        attachAndRespond now (mergeLoop now (id_c rootPrimary) losers st) em ph rootPrimary"
    by (simp add: reconcile_def)
  show "reconcile now st em ph \<noteq> Inl TypeError"
  proof
    assume "reconcile now st em ph = Inl TypeError"
    with eq attachAndRespond_error[of now "mergeLoop now (id_c rootPrimary) losers st" em ph
        rootPrimary TypeError]
    show False by simp
  qed
qed

text \<open>
  The theorem on a store whose primary was soft-deleted: the live secondary 2 still
  points to it. With the email alone the only match dangles; with the phone of row 3
  there is a live root.
\<close>

theorem dangling_roots_throw_witness:
  "matchingContacts orphanStore (Some ''a@hv.edu'') None =
     [row 2 (Some ''a@hv.edu'') (Some ''111'') (Some 1) Secondary 20] \<and>
   rootIdOf (row 2 (Some ''a@hv.edu'') (Some ''111'') (Some 1) Secondary 20) = Some 1 \<and>
   1 \<notin> id_c ` set (liveRows orphanStore) \<and>
   reconcile 50 orphanStore (Some ''a@hv.edu'') None = Inl TypeError \<and>
   identify (cleanAttempt 50) id (cleanAttempt 60) orphanStore (Some ''a@hv.edu'') None =
     (orphanStore, Inl TypeError) \<and>
   matchingContacts orphanStore (Some ''a@hv.edu'') (Some ''333'') \<noteq> [] \<and>
   fetchPrimaries orphanStore
     (primaryIds (matchingContacts orphanStore (Some ''a@hv.edu'') (Some ''333''))) =
     Inr [row 3 (Some ''b@hv.edu'') (Some ''333'') None Primary 30] \<and>
   reconcile 50 orphanStore (Some ''a@hv.edu'') (Some ''333'') =
     attachAndRespond 50
       (mergeLoop 50 (id_c (row 3 (Some ''b@hv.edu'') (Some ''333'') None Primary 30)) []
          orphanStore)
       (Some ''a@hv.edu'') (Some ''333'')
       (row 3 (Some ''b@hv.edu'') (Some ''333'') None Primary 30) \<and>
   reconcile 50 orphanStore (Some ''a@hv.edu'') (Some ''333'') \<noteq> Inl TypeError"
proof -
  have h1: "matchingContacts orphanStore (Some ''a@hv.edu'') None =
     [row 2 (Some ''a@hv.edu'') (Some ''111'') (Some 1) Secondary 20]" by code_simp
  have h2: "rootIdOf (row 2 (Some ''a@hv.edu'') (Some ''111'') (Some 1) Secondary 20) = Some 1"
    by code_simp
  have h3: "1 \<notin> id_c ` set (liveRows orphanStore)" by code_simp
  have h4: "matchingContacts orphanStore (Some ''a@hv.edu'') None \<noteq> [] \<and>
    (\<forall>m\<in>set (matchingContacts orphanStore (Some ''a@hv.edu'') None).
           \<exists>l. rootIdOf m = Some l \<and> l \<notin> id_c ` set (liveRows orphanStore))"
    using h1 h2 h3 by simp
  have h5: "matchingContacts orphanStore (Some ''a@hv.edu'') (Some ''333'') \<noteq> []"
    by code_simp
  have h6: "fetchPrimaries orphanStore
     (primaryIds (matchingContacts orphanStore (Some ''a@hv.edu'') (Some ''333''))) =
     Inr (row 3 (Some ''b@hv.edu'') (Some ''333'') None Primary 30 # [])" by code_simp
  note first = dangling_roots_throw[of orphanStore "Some ''a@hv.edu''" None 50 "cleanAttempt 50" id
      "cleanAttempt 60" "row 3 (Some ''b@hv.edu'') (Some ''333'') None Primary 30" "[]"]
  note second = dangling_roots_throw[of orphanStore "Some ''a@hv.edu''" "Some ''333''" 50
      "cleanAttempt 50" id "cleanAttempt 60"
      "row 3 (Some ''b@hv.edu'') (Some ''333'') None Primary 30" "[]"]
  note b1 = mp[OF conjunct1[OF first] h4]
  note b2 = mp[OF conjunct2[OF second] conjI[OF h5 h6]]
  from h1 h2 h3 conjunct1[OF b1] conjunct2[OF b1] h5 h6 conjunct1[OF b2] conjunct2[OF b2]
  show ?thesis by - (intro conjI, assumption+)
qed

text \<open>
  C6 as stated fails as soon as one other match resolves to a live row: the matched
  secondary 2 points to the soft-deleted row 1, the call goes on with the live root 3
  alone and attaches a new secondary to it.
\<close>

theorem dangling_root_ignored_counterexample:
  "matchingContacts orphanStore (Some ''a@hv.edu'') (Some ''333'') =
     [row 2 (Some ''a@hv.edu'') (Some ''111'') (Some 1) Secondary 20,
      row 3 (Some ''b@hv.edu'') (Some ''333'') None Primary 30] \<and>
   linkedId (row 2 (Some ''a@hv.edu'') (Some ''111'') (Some 1) Secondary 20) = Some 1 \<and>
   1 \<notin> id_c ` set (liveRows orphanStore) \<and>
   reconcile 50 orphanStore (Some ''a@hv.edu'') (Some ''333'') =
     Inr (orphanStoreAfter,
          \<lparr> primaryContactId = 3, emails = [''b@hv.edu'', ''a@hv.edu''],
            phoneNumbers = [''333''], secondaryContactIds = [4] \<rparr>)"
  by code_simp

section \<open>Inert input\<close>

text \<open>The secondaries of the payload, read off the rows of the store.\<close>

lemma group_secondaries:
  "filter (\<lambda>c. id_c c \<noteq> rid) (allLinkedOf st rid) =
     sort_key createdAt (filter (\<lambda>s. live s \<and> linkedId s = Some rid \<and> id_c s \<noteq> rid) (rows st))"
proof -
  have "filter (\<lambda>c. id_c c \<noteq> rid) (allLinkedOf st rid) =
        sort_key createdAt (filter (\<lambda>c. id_c c \<noteq> rid)
           (filter (\<lambda>c. live c \<and> (id_c c = rid \<or> linkedId c = Some rid)) (rows st)))"
    by (simp add: allLinkedOf_def orderByCreatedAt_def filter_sort)
  also have "filter (\<lambda>c. id_c c \<noteq> rid)
           (filter (\<lambda>c. live c \<and> (id_c c = rid \<or> linkedId c = Some rid)) (rows st)) =
        filter (\<lambda>s. live s \<and> linkedId s = Some rid \<and> id_c s \<noteq> rid) (rows st)"
    by (auto intro: filter_cong)
  finally show ?thesis .
qed

text \<open>
  C8. When the matches resolve to a single live root and some live row \<open>c\<close> of its group
  (the root itself or a row linked to it) stores exactly the pair of the input, absent
  equal to absent, \<open>reconcile\<close> returns the store as it was, and the payload is the view
  of that group: the root's id; the present emails (phones) of the root and then of its
  live secondaries in the order of \<open>createdAt\<close>, each at its first occurrence; and the
  ids of these secondaries in that order.
\<close>

theorem inert_input_writes_nothing:
  assumes "fetchPrimaries st (primaryIds (matchingContacts st em ph)) = Inr [rootPrimary]"
    and "c \<in> set (rows st)" and "live c"
    and "id_c c = id_c rootPrimary \<or> linkedId c = Some (id_c rootPrimary)"
    and "email c = em" and "phoneNumber c = ph"
    and "secondaries =
           sort_key createdAt
             (filter (\<lambda>s. live s \<and> linkedId s = Some (id_c rootPrimary) \<and>
                          id_c s \<noteq> id_c rootPrimary) (rows st))"
  shows "reconcile now st em ph =
           Inr (st,
             \<lparr> primaryContactId = id_c rootPrimary,
               emails = rev (remdups (rev (map the
                          (filter (\<lambda>v. v \<noteq> None \<and> v \<noteq> Some [])
                                  (map email (rootPrimary # secondaries)))))),
               phoneNumbers = rev (remdups (rev (map the
                          (filter (\<lambda>v. v \<noteq> None \<and> v \<noteq> Some [])
                                  (map phoneNumber (rootPrimary # secondaries)))))),
               secondaryContactIds = map id_c secondaries \<rparr>)"
proof -
  from assms(2,3,4) have g: "c \<in> set (allLinkedOf st (id_c rootPrimary))"
    by (simp add: allLinkedOf_def)
  have "matchesInput em ph c"
    using assms(5,6) by (auto simp: matchesInput_def)
  with assms(2,3) have "c \<in> set (matchingContacts st em ph)"
    by (simp add: matchingContacts_def)
  then have ne: "matchingContacts st em ph \<noteq> []" by auto
  have "exactDuplicate em ph (allLinkedOf st (id_c rootPrimary))"
    using g assms(5,6) by (auto simp: exactDuplicate_def list_ex_iff)
  then have "\<not> attachNeeded em ph (allLinkedOf st (id_c rootPrimary))"
    by (simp add: attachNeeded_def)
  then have "reconcile now st em ph =
           Inr (st, buildResponse rootPrimary
                      (filter (\<lambda>c. id_c c \<noteq> id_c rootPrimary)
                              (allLinkedOf st (id_c rootPrimary))))"
    using ne assms(1) by (simp add: reconcile_def attachAndRespond_def)
  then show ?thesis
    unfolding group_secondaries assms(7)[symmetric] buildResponse_fields .
qed

text \<open>
  The theorem at the replay of scenario 3.
\<close>

theorem inert_input_writes_nothing_witness:
  "fetchPrimaries docMartyStore
     (primaryIds (matchingContacts docMartyStore (Some ''marty@hv.edu'') (Some ''555-0100''))) =
     Inr [docRow] \<and>
   martyRow \<in> set (rows docMartyStore) \<and> live martyRow \<and>
   linkedId martyRow = Some (id_c docRow) \<and>
   email martyRow = Some ''marty@hv.edu'' \<and> phoneNumber martyRow = Some ''555-0100'' \<and>
   [martyRow] = sort_key createdAt
             (filter (\<lambda>s. live s \<and> linkedId s = Some (id_c docRow) \<and>
                          id_c s \<noteq> id_c docRow) (rows docMartyStore)) \<and>
   reconcile 30 docMartyStore (Some ''marty@hv.edu'') (Some ''555-0100'') =
     Inr (docMartyStore,
          \<lparr> primaryContactId = 1, emails = [''doc@hv.edu'', ''marty@hv.edu''],
            phoneNumbers = [''555-0100''], secondaryContactIds = [2] \<rparr>)"
proof -
  have h1: "fetchPrimaries docMartyStore
     (primaryIds (matchingContacts docMartyStore (Some ''marty@hv.edu'') (Some ''555-0100''))) =
     Inr [docRow]" by code_simp
  have h2: "martyRow \<in> set (rows docMartyStore)" by code_simp
  have h3: "live martyRow" by code_simp
  have h4: "linkedId martyRow = Some (id_c docRow)" by code_simp
  have h5: "email martyRow = Some ''marty@hv.edu''" by code_simp
  have h6: "phoneNumber martyRow = Some ''555-0100''" by code_simp
  have h7: "[martyRow] = sort_key createdAt
             (filter (\<lambda>s. live s \<and> linkedId s = Some (id_c docRow) \<and>
                          id_c s \<noteq> id_c docRow) (rows docMartyStore))" by code_simp
  have v: "\<lparr> primaryContactId = id_c docRow,
               emails = rev (remdups (rev (map the
                          (filter (\<lambda>v. v \<noteq> None \<and> v \<noteq> Some [])
                                  (map email (docRow # [martyRow])))))),
               phoneNumbers = rev (remdups (rev (map the
                          (filter (\<lambda>v. v \<noteq> None \<and> v \<noteq> Some [])
                                  (map phoneNumber (docRow # [martyRow])))))),
               secondaryContactIds = map id_c [martyRow] \<rparr> =
          \<lparr> primaryContactId = 1, emails = [''doc@hv.edu'', ''marty@hv.edu''],
            phoneNumbers = [''555-0100''], secondaryContactIds = [2] \<rparr>" by code_simp
  from inert_input_writes_nothing[OF h1 h2 h3 disjI2[OF h4] h5 h6 h7, of 30]
  have "reconcile 30 docMartyStore (Some ''marty@hv.edu'') (Some ''555-0100'') =
     Inr (docMartyStore,
          \<lparr> primaryContactId = 1, emails = [''doc@hv.edu'', ''marty@hv.edu''],
            phoneNumbers = [''555-0100''], secondaryContactIds = [2] \<rparr>)"
    unfolding v .
  with h1 h2 h3 h4 h5 h6 h7 show ?thesis by (intro conjI)
qed

section \<open>The choice of the survivor\<close>

lemma mergedRow_loser:
  "id_c c \<in> L \<Longrightarrow>
   linkPrecedence (mergedRow now rid L c) = Secondary \<and> linkedId (mergedRow now rid L c) = Some rid"
  by (simp add: mergedRow_def)

lemma mergedRow_precedence_other:
  "id_c c \<notin> L \<Longrightarrow> linkPrecedence (mergedRow now rid L c) = linkPrecedence c"
  by (simp add: mergedRow_def)

text \<open>
  C3 (as amended). In a call with a non-empty match set the fetched roots are the live
  rows whose id a match resolves to, ordered by ascending \<open>createdAt\<close>; rows with equal
  \<open>createdAt\<close> stay in the order of the store. The survivor is the first of them, so
  its \<open>createdAt\<close> is minimal among the roots, and the call continues with all others
  as losers: with unique ids, the merge leaves every loser a secondary linked to the
  survivor and the survivor's precedence as it was.
\<close>

theorem survivor_is_first_by_createdAt:
  assumes "matchingContacts st em ph = ms" and "ms \<noteq> []"
    and "fetchPrimaries st (primaryIds ms) = Inr (rootPrimary # losers)"
  shows "sorted (map createdAt (rootPrimary # losers)) \<and>
         (\<forall>c\<in>set losers. createdAt rootPrimary \<le> createdAt c) \<and>
         set (rootPrimary # losers) =
           {c \<in> set (liveRows st). \<exists>m\<in>set ms. rootIdOf m = Some (id_c c)} \<and>
         (\<forall>t. filter (\<lambda>c. createdAt c = t) (rootPrimary # losers) =
              filter (\<lambda>c. createdAt c = t)
                (filter (\<lambda>c. Some (id_c c) \<in> set (primaryIds ms)) (liveRows st))) \<and>
         reconcile now st em ph =
           attachAndRespond now (mergeLoop now (id_c rootPrimary) losers st) em ph rootPrimary \<and>
         (distinct (map id_c (rows st)) \<longrightarrow>
            (\<forall>c\<in>set (rows (mergeLoop now (id_c rootPrimary) losers st)).
               (id_c c \<in> id_c ` set losers \<longrightarrow>
                  linkPrecedence c = Secondary \<and> linkedId c = Some (id_c rootPrimary)) \<and>
               (id_c c = id_c rootPrimary \<longrightarrow> linkPrecedence c = linkPrecedence rootPrimary)))"
proof -
  let ?sel = "filter (\<lambda>c. Some (id_c c) \<in> set (primaryIds ms) \<and> live c) (rows st)"
  have ps: "rootPrimary # losers = sort_key createdAt ?sel"
    using fetchPrimaries_Inr(2)[OF assms(3)] by (simp add: orderByCreatedAt_def)
  have s: "sorted (map createdAt (rootPrimary # losers))"
    unfolding ps by (rule sorted_sort_key)
  then have le: "\<forall>c\<in>set losers. createdAt rootPrimary \<le> createdAt c"
    by simp
  have st: "set (rootPrimary # losers) =
      {c \<in> set (liveRows st). \<exists>m\<in>set ms. rootIdOf m = Some (id_c c)}"
    unfolding ps by (force simp: primaryIds_def liveRows_def image_iff)
  have sel: "?sel = filter (\<lambda>c. Some (id_c c) \<in> set (primaryIds ms)) (liveRows st)"
    by (simp add: liveRows_def conj_commute)
  have ties: "filter (\<lambda>c. createdAt c = t) (rootPrimary # losers) =
      filter (\<lambda>c. createdAt c = t)
        (filter (\<lambda>c. Some (id_c c) \<in> set (primaryIds ms)) (liveRows st))" for t
    unfolding ps sel by (rule sort_key_stable)
  have rec: "reconcile now st em ph =
      attachAndRespond now (mergeLoop now (id_c rootPrimary) losers st) em ph rootPrimary"
    using assms by (simp add: reconcile_def)
  have dem: "(id_c c \<in> id_c ` set losers \<longrightarrow>
                linkPrecedence c = Secondary \<and> linkedId c = Some (id_c rootPrimary)) \<and>
             (id_c c = id_c rootPrimary \<longrightarrow> linkPrecedence c = linkPrecedence rootPrimary)"
    if d: "distinct (map id_c (rows st))"
      and c: "c \<in> set (rows (mergeLoop now (id_c rootPrimary) losers st))" for c
  proof -
    note notin = fetched_ids_distinct[OF d assms(3)]
    from c mergeLoop_rows[OF notin, of now st] obtain c0 where c0: "c0 \<in> set (rows st)"
      "c = mergedRow now (id_c rootPrimary) (id_c ` set losers) c0" by auto
    have root_in: "rootPrimary \<in> set (rows st)"
      using fetched_in_rows[OF assms(3), of rootPrimary] by simp
    have "c0 = rootPrimary" if "id_c c = id_c rootPrimary"
      using that c0 root_in d by (simp add: distinct_map inj_on_def)
    then show ?thesis
      using c0(2) notin mergedRow_loser[of c0 "id_c ` set losers" now "id_c rootPrimary"]
        mergedRow_precedence_other[of c0 "id_c ` set losers" now "id_c rootPrimary"]
      by auto
  qed
  from s le st ties rec dem show ?thesis by blast
qed

text \<open>
  The theorem on two primaries of the same age.
\<close>

theorem survivor_is_first_by_createdAt_witness:
  "matchingContacts tiedPrimariesStore (Some ''a@hv.edu'') (Some ''222'') =
     rows tiedPrimariesStore \<and>
   rows tiedPrimariesStore \<noteq> [] \<and>
   fetchPrimaries tiedPrimariesStore (primaryIds (rows tiedPrimariesStore)) =
     Inr (rows tiedPrimariesStore) \<and>
   distinct (map id_c (rows tiedPrimariesStore)) \<and>
   reconcile 9 tiedPrimariesStore (Some ''a@hv.edu'') (Some ''222'') =
     attachAndRespond 9
       (mergeLoop 9 2 [row 1 (Some ''a@hv.edu'') (Some ''111'') None Primary 5] tiedPrimariesStore)
       (Some ''a@hv.edu'') (Some ''222'')
       (row 2 (Some ''b@hv.edu'') (Some ''222'') None Primary 5) \<and>
   createdAt (row 2 (Some ''b@hv.edu'') (Some ''222'') None Primary 5)
     \<le> createdAt (row 1 (Some ''a@hv.edu'') (Some ''111'') None Primary 5)"
proof -
  have h1: "matchingContacts tiedPrimariesStore (Some ''a@hv.edu'') (Some ''222'') =
     rows tiedPrimariesStore" by code_simp
  have h2: "rows tiedPrimariesStore \<noteq> []" by code_simp
  have h3: "fetchPrimaries tiedPrimariesStore (primaryIds (rows tiedPrimariesStore)) =
     Inr (row 2 (Some ''b@hv.edu'') (Some ''222'') None Primary 5 #
          [row 1 (Some ''a@hv.edu'') (Some ''111'') None Primary 5])" by code_simp
  have h4: "distinct (map id_c (rows tiedPrimariesStore))" by code_simp
  have h5: "rows tiedPrimariesStore = [row 2 (Some ''b@hv.edu'') (Some ''222'') None Primary 5,
          row 1 (Some ''a@hv.edu'') (Some ''111'') None Primary 5]" by code_simp
  have h6: "id_c (row 2 (Some ''b@hv.edu'') (Some ''222'') None Primary 5) = 2" by code_simp
  from survivor_is_first_by_createdAt[OF h1 h2 h3, of 9] h1 h2 h3 h4 h5 h6
  show ?thesis by simp
qed

text \<open>
  C3 as stated fails on ties: nothing in the query orders by \<open>id\<close>. Of two roots created
  at the same instant the store returns row 2 first; row 2 survives and row 1, the
  minimum under (createdAt, id), is demoted.
\<close>

theorem survivor_tie_counterexample:
  "fetchPrimaries tiedPrimariesStore
      (primaryIds (matchingContacts tiedPrimariesStore (Some ''a@hv.edu'') (Some ''222''))) =
     Inr [row 2 (Some ''b@hv.edu'') (Some ''222'') None Primary 5,
          row 1 (Some ''a@hv.edu'') (Some ''111'') None Primary 5] \<and>
   reconcile 9 tiedPrimariesStore (Some ''a@hv.edu'') (Some ''222'') =
     Inr (tiedPrimariesMerged,
          \<lparr> primaryContactId = 2, emails = [''b@hv.edu'', ''a@hv.edu''],
            phoneNumbers = [''222'', ''111''], secondaryContactIds = [1] \<rparr>) \<and>
   createdAt (row 1 (Some ''a@hv.edu'') (Some ''111'') None Primary 5) =
   createdAt (row 2 (Some ''b@hv.edu'') (Some ''222'') None Primary 5) \<and>
   id_c (row 1 (Some ''a@hv.edu'') (Some ''111'') None Primary 5) <
   id_c (row 2 (Some ''b@hv.edu'') (Some ''222'') None Primary 5)"
  by code_simp

section \<open>The rows a successful call leaves\<close>

lemma newRow_fields [simp]:
  "id_c (newRow now st em ph l prec) = nextId st"
  "email (newRow now st em ph l prec) = em"
  "phoneNumber (newRow now st em ph l prec) = ph"
  "linkedId (newRow now st em ph l prec) = l"
  "linkPrecedence (newRow now st em ph l prec) = prec"
  "createdAt (newRow now st em ph l prec) = now"
  "live (newRow now st em ph l prec)"
  by (simp_all add: newRow_def live_def)

lemma create_newRow:
  assumes "create now st em ph l prec = Inr (st', c)"
  shows "c = newRow now st em ph l prec" and "rows st' = rows st @ [newRow now st em ph l prec]"
    and "nextId st \<notin> id_c ` set (rows st)"
  using create_Inr[OF assms] by (simp_all add: newRow_def)

text \<open>The three ways in which a call succeeds, in terms of the rows it leaves.\<close>

lemma reconcile_shape:
  assumes "distinct (map id_c (rows st))" and "reconcile now st em ph = Inr (st', r)"
  obtains
    (fresh) "matchingContacts st em ph = []"
      "rows st' = rows st @ [newRow now st em ph None Primary]"
      "nextId st \<notin> id_c ` set (rows st)"
      "r = buildResponse (newRow now st em ph None Primary) []"
  | (kept) rootPrimary losers where "matchingContacts st em ph \<noteq> []"
      "fetchPrimaries st (primaryIds (matchingContacts st em ph)) = Inr (rootPrimary # losers)"
      "id_c rootPrimary \<notin> id_c ` set losers"
      "st' = mergeLoop now (id_c rootPrimary) losers st"
      "rows st' = map (mergedRow now (id_c rootPrimary) (id_c ` set losers)) (rows st)"
      "\<not> attachNeeded em ph (allLinkedOf st' (id_c rootPrimary))"
      "r = buildResponse rootPrimary
             (filter (\<lambda>c. id_c c \<noteq> id_c rootPrimary) (allLinkedOf st' (id_c rootPrimary)))"
  | (attached) rootPrimary losers where "matchingContacts st em ph \<noteq> []"
      "fetchPrimaries st (primaryIds (matchingContacts st em ph)) = Inr (rootPrimary # losers)"
      "id_c rootPrimary \<notin> id_c ` set losers"
      "rows st' = map (mergedRow now (id_c rootPrimary) (id_c ` set losers)) (rows st)
                  @ [newRow now st em ph (Some (id_c rootPrimary)) Secondary]"
      "nextId st \<notin> id_c ` set (rows st)"
      "attachNeeded em ph
         (allLinkedOf (mergeLoop now (id_c rootPrimary) losers st) (id_c rootPrimary))"
      "r = buildResponse rootPrimary
             (filter (\<lambda>c. id_c c \<noteq> id_c rootPrimary)
                (allLinkedOf (mergeLoop now (id_c rootPrimary) losers st) (id_c rootPrimary)
                 @ [newRow now st em ph (Some (id_c rootPrimary)) Secondary]))"
  using assms(2)
proof (cases rule: reconcile_Inr_cases)
  case (fresh created)
  note c = create_newRow[OF fresh(2)]
  show ?thesis
    using fresh(1) c(2,3) fresh(3)[unfolded c(1)] by (rule that(1))
next
  case (group rootPrimary losers)
  note notin = fetched_ids_distinct[OF assms(1) group(2)]
  note mrows = mergeLoop_rows[OF notin, of now st]
  let ?m = "mergeLoop now (id_c rootPrimary) losers st"
  from group(3) show ?thesis
  proof (cases rule: attachAndRespond_Inr_cases)
    case (attach newSecondary)
    note c = create_newRow[OF attach(2)]
    have n: "newRow now ?m em ph (Some (id_c rootPrimary)) Secondary
           = newRow now st em ph (Some (id_c rootPrimary)) Secondary"
      by (simp add: newRow_def)
    have ids: "id_c ` set (rows ?m) = id_c ` set (rows st)"
      using mergeLoop_ids[of now "id_c rootPrimary" losers st] by (metis set_map)
    show ?thesis
      using group(1,2) notin c(2)[unfolded n mrows] c(3)[unfolded ids, simplified]
        attach(1) attach(3)[unfolded c(1) n]
      by (rule that(3))
  next
    case keep
    show ?thesis
      using group(1,2) notin keep(2) mrows[folded keep(2)] keep(1)[folded keep(2)]
        keep(3)[folded keep(2)]
      by (rule that(2))
  qed
qed

section \<open>The forest of depth one is kept\<close>

lemma old_id:
  "nextId st \<notin> id_c ` set (rows st) \<Longrightarrow> c \<in> set (rows st) \<Longrightarrow> id_c c \<noteq> nextId st"
  by (metis imageI)

lemma liveRows_set [simp]: "set (liveRows st) = {c \<in> set (rows st). live c}"
  by (simp add: liveRows_def)

lemma matching_set:
  "set (matchingContacts st em ph) = {c \<in> set (rows st). live c \<and> matchesInput em ph c}"
  by (simp add: matchingContacts_def)

lemma distinct_ids_eq:
  "distinct (map id_c cs) \<Longrightarrow> c \<in> set cs \<Longrightarrow> d \<in> set cs \<Longrightarrow> id_c c = id_c d \<Longrightarrow> c = d"
  by (simp add: distinct_map inj_on_def)

lemma forest_primary:
  "forest st \<Longrightarrow> c \<in> set (rows st) \<Longrightarrow> live c \<Longrightarrow> linkPrecedence c = Primary \<Longrightarrow> linkedId c = None"
  by (simp add: forest_def)

lemma forest_secondary:
  assumes "forest st" "c \<in> set (rows st)" "live c" "linkPrecedence c = Secondary"
  obtains d where "d \<in> set (rows st)" "live d" "linkPrecedence d = Primary"
    "linkedId c = Some (id_c d)"
  using assms by (auto simp: forest_def)

lemma forest_root:
  assumes "forest st" "c \<in> set (rows st)" "live c"
  obtains d where "d \<in> set (rows st)" "live d" "linkPrecedence d = Primary"
    "rootIdOf c = Some (id_c d)"
proof (cases "linkPrecedence c")
  case Primary
  with assms(2,3) that[of c] show ?thesis by (simp add: rootIdOf_def)
next
  case Secondary
  from forest_secondary[OF assms Secondary] obtain d where "d \<in> set (rows st)" "live d"
    "linkPrecedence d = Primary" "linkedId c = Some (id_c d)" by blast
  with Secondary that[of d] show ?thesis by (simp add: rootIdOf_def)
qed

text \<open>In a forest the fetched roots are exactly the live primaries the matches resolve to.\<close>

lemma fetched_primary:
  assumes wf: "distinct (map id_c (rows st))" and f: "forest st"
    and fetch: "fetchPrimaries st (primaryIds (matchingContacts st em ph)) = Inr ps"
    and p: "p \<in> set ps"
  shows "p \<in> set (rows st) \<and> live p \<and> linkPrecedence p = Primary \<and> linkedId p = None"
proof -
  from fetched_in_rows[OF fetch p] have pin: "p \<in> set (rows st)" "live p"
    and "Some (id_c p) \<in> set (primaryIds (matchingContacts st em ph))" by simp_all
  then obtain m where m: "m \<in> set (rows st)" "live m" "rootIdOf m = Some (id_c p)"
    by (auto simp: primaryIds_def matching_set)
  from forest_root[OF f m(1,2)] obtain d where d: "d \<in> set (rows st)" "live d"
    "linkPrecedence d = Primary" "rootIdOf m = Some (id_c d)" by blast
  with m(3) have "id_c d = id_c p" by simp
  with distinct_ids_eq[OF wf d(1) pin(1)] have "d = p" by simp
  with d pin forest_primary[OF f pin(1,2)] show ?thesis by simp
qed

lemma matched_root_fetched:
  assumes f: "forest st"
    and fetch: "fetchPrimaries st (primaryIds (matchingContacts st em ph)) = Inr ps"
    and m: "m \<in> set (matchingContacts st em ph)"
  obtains p where "p \<in> set ps" "rootIdOf m = Some (id_c p)"
proof -
  from m have min: "m \<in> set (rows st)" "live m" by (simp_all add: matching_set)
  from forest_root[OF f min] obtain d where d: "d \<in> set (rows st)" "live d"
    "rootIdOf m = Some (id_c d)" by blast
  have "Some (id_c d) \<in> set (primaryIds (matchingContacts st em ph))"
    using m d(3) by (force simp: primaryIds_def image_iff)
  with d(1,2) have "d \<in> set ps"
    unfolding fetchPrimaries_Inr(2)[OF fetch] by simp
  with d(3) that show ?thesis by blast
qed

lemma mergedRow_linkedId:
  "linkedId (mergedRow now rid L c) =
     (if id_c c \<in> L \<or> (linkedId c \<in> Some ` L \<and> live c) then Some rid else linkedId c)"
  by (auto simp: mergedRow_def)

lemma mergedRow_precedence:
  "linkPrecedence (mergedRow now rid L c) = (if id_c c \<in> L then Secondary else linkPrecedence c)"
  by (simp add: mergedRow_def)

text \<open>The merge keeps a forest a forest.\<close>

lemma forest_merged:
  assumes wf: "distinct (map id_c (rows st))" and f: "forest st"
    and root: "rootPrimary \<in> set (rows st)" "live rootPrimary"
      "linkPrecedence rootPrimary = Primary"
    and notin: "id_c rootPrimary \<notin> L"
    and c: "c \<in> set (rows st)" "live c"
  shows "(linkPrecedence (mergedRow now (id_c rootPrimary) L c) = Primary \<longrightarrow>
            linkedId (mergedRow now (id_c rootPrimary) L c) = None) \<and>
         (linkPrecedence (mergedRow now (id_c rootPrimary) L c) = Secondary \<longrightarrow>
            (\<exists>d\<in>set (rows st). live d \<and>
               linkPrecedence (mergedRow now (id_c rootPrimary) L d) = Primary \<and>
               linkedId (mergedRow now (id_c rootPrimary) L c) = Some (id_c d)))"
proof -
  let ?g = "mergedRow now (id_c rootPrimary) L"
  have groot: "linkPrecedence (?g rootPrimary) = Primary"
    using notin root(3) by (simp add: mergedRow_precedence)
  show ?thesis
  proof (cases "id_c c \<in> L \<or> (linkedId c \<in> Some ` L \<and> live c)")
    case True
    then have l: "linkedId (?g c) = Some (id_c rootPrimary)"
      by (simp add: mergedRow_linkedId)
    have "linkPrecedence (?g c) = Secondary"
    proof (cases "id_c c \<in> L")
      case True then show ?thesis by (simp add: mergedRow_precedence)
    next
      case False
      with True have "linkedId c \<noteq> None" by auto
      with forest_primary[OF f c] have "linkPrecedence c = Secondary"
        by (cases "linkPrecedence c") auto
      with False show ?thesis by (simp add: mergedRow_precedence)
    qed
    with l root groot show ?thesis by auto
  next
    case False
    then have same: "?g c = c" by (auto simp: mergedRow_def)
    show ?thesis
    proof (cases "linkPrecedence c")
      case Primary
      with forest_primary[OF f c] same show ?thesis by simp
    next
      case Secondary
      from forest_secondary[OF f c Secondary] obtain d where d: "d \<in> set (rows st)" "live d"
        "linkPrecedence d = Primary" "linkedId c = Some (id_c d)" by blast
      with False c(2) have "id_c d \<notin> L" by auto
      with d(3) have "linkPrecedence (?g d) = Primary" by (simp add: mergedRow_precedence)
      with d same Secondary show ?thesis by auto
    qed
  qed
qed

lemma wellFormed_distinct: "wellFormed st \<Longrightarrow> distinct (map id_c (rows st))"
  by (simp add: wellFormed_def)

lemma wellFormed_fk:
  "wellFormed st \<Longrightarrow> c \<in> set (rows st) \<Longrightarrow> linkedId c = Some l \<Longrightarrow> l \<in> id_c ` set (rows st)"
  by (simp add: wellFormed_def)

lemma wellFormedI:
  assumes "distinct (map id_c (rows st))"
    and "\<And>c l. c \<in> set (rows st) \<Longrightarrow> linkedId c = Some l \<Longrightarrow> l \<in> id_c ` set (rows st)"
  shows "wellFormed st"
  using assms by (simp add: wellFormed_def)

lemma reconcile_preserves_wellFormed:
  assumes wf: "wellFormed st" and ok: "reconcile now st em ph = Inr (st', r)"
  shows "wellFormed st'"
  using wellFormed_distinct[OF wf] ok
proof (cases rule: reconcile_shape)
  case fresh
  show ?thesis
  proof (rule wellFormedI)
    show "distinct (map id_c (rows st'))"
      using fresh(2,3) wellFormed_distinct[OF wf] by simp
    show "l \<in> id_c ` set (rows st')" if "c \<in> set (rows st')" "linkedId c = Some l" for c l
      using that fresh(2) wellFormed_fk[OF wf, of c l] by auto
  qed
next
  case (kept rootPrimary losers)
  let ?g = "mergedRow now (id_c rootPrimary) (id_c ` set losers)"
  have root: "rootPrimary \<in> set (rows st)"
    using fetched_in_rows[OF kept(2), of rootPrimary] by simp
  show ?thesis
  proof (rule wellFormedI)
    show "distinct (map id_c (rows st'))"
      using kept(5) wellFormed_distinct[OF wf] by (simp add: comp_def)
    show "l \<in> id_c ` set (rows st')" if "c \<in> set (rows st')" "linkedId c = Some l" for c l
    proof -
      from that(1) kept(5) obtain c0 where c0: "c0 \<in> set (rows st)" "c = ?g c0" by auto
      have ids: "id_c ` set (rows st') = id_c ` set (rows st)"
        unfolding kept(5) by (simp add: image_image)
      from that(2) c0(2) have "l = id_c rootPrimary \<or> linkedId c0 = Some l"
        by (simp add: mergedRow_linkedId split: if_splits)
      with root wellFormed_fk[OF wf c0(1), of l] ids show ?thesis by auto
    qed
  qed
next
  case (attached rootPrimary losers)
  let ?g = "mergedRow now (id_c rootPrimary) (id_c ` set losers)"
  have root: "rootPrimary \<in> set (rows st)"
    using fetched_in_rows[OF attached(2), of rootPrimary] by simp
  have ids: "id_c ` set (rows st') = insert (nextId st) (id_c ` set (rows st))"
    unfolding attached(4) by (simp add: image_image)
  show ?thesis
  proof (rule wellFormedI)
    show "distinct (map id_c (rows st'))"
      using attached(4,5) wellFormed_distinct[OF wf] by (simp add: comp_def)
    show "l \<in> id_c ` set (rows st')" if "c \<in> set (rows st')" "linkedId c = Some l" for c l
    proof -
      from that(1) attached(4) consider c0 where "c0 \<in> set (rows st)" "c = ?g c0"
        | "c = newRow now st em ph (Some (id_c rootPrimary)) Secondary" by auto
      then show ?thesis
      proof cases
        case 1
        from that(2) 1(2) have "l = id_c rootPrimary \<or> linkedId c0 = Some l"
          by (simp add: mergedRow_linkedId split: if_splits)
        with root wellFormed_fk[OF wf 1(1), of l] ids show ?thesis by auto
      next
        case 2
        with that(2) root ids show ?thesis by auto
      qed
    qed
  qed
qed

lemma forestI:
  assumes "\<And>c. c \<in> set (rows st) \<Longrightarrow> live c \<Longrightarrow>
      (linkPrecedence c = Primary \<longrightarrow> linkedId c = None) \<and>
      (linkPrecedence c = Secondary \<longrightarrow>
         (\<exists>d\<in>set (rows st). live d \<and> linkPrecedence d = Primary \<and> linkedId c = Some (id_c d)))"
  shows "forest st"
  unfolding forest_def using assms by auto

lemma reconcile_preserves_forest:
  assumes wf: "wellFormed st" and f: "forest st" and ok: "reconcile now st em ph = Inr (st', r)"
  shows "forest st'"
  using wellFormed_distinct[OF wf] ok
proof (cases rule: reconcile_shape)
  case fresh
  show ?thesis
  proof (rule forestI)
    fix c assume c: "c \<in> set (rows st')" "live c"
    show "(linkPrecedence c = Primary \<longrightarrow> linkedId c = None) \<and>
      (linkPrecedence c = Secondary \<longrightarrow>
         (\<exists>d\<in>set (rows st'). live d \<and> linkPrecedence d = Primary \<and> linkedId c = Some (id_c d)))"
    proof (cases "c \<in> set (rows st)")
      case True
      with f c(2) fresh(2) show ?thesis by (fastforce simp: forest_def)
    next
      case False
      with c(1) fresh(2) have "c = newRow now st em ph None Primary" by simp
      then show ?thesis by simp
    qed
  qed
next
  case (kept rootPrimary losers)
  let ?g = "mergedRow now (id_c rootPrimary) (id_c ` set losers)"
  note root = fetched_primary[OF wellFormed_distinct[OF wf] f kept(2), of rootPrimary, simplified]
  show ?thesis
  proof (rule forestI)
    fix c assume c: "c \<in> set (rows st')" "live c"
    from c kept(5) obtain c0 where c0: "c0 \<in> set (rows st)" "c = ?g c0" "live c0" by auto
    from forest_merged[OF wellFormed_distinct[OF wf] f _ _ _ kept(3) c0(1,3), of now] root
    have "(linkPrecedence c = Primary \<longrightarrow> linkedId c = None) \<and>
      (linkPrecedence c = Secondary \<longrightarrow>
         (\<exists>d\<in>set (rows st). live d \<and> linkPrecedence (?g d) = Primary \<and> linkedId c = Some (id_c d)))"
      unfolding c0(2) by simp
    then show "(linkPrecedence c = Primary \<longrightarrow> linkedId c = None) \<and>
      (linkPrecedence c = Secondary \<longrightarrow>
         (\<exists>d\<in>set (rows st'). live d \<and> linkPrecedence d = Primary \<and> linkedId c = Some (id_c d)))"
      unfolding kept(5) by fastforce
  qed
next
  case (attached rootPrimary losers)
  let ?g = "mergedRow now (id_c rootPrimary) (id_c ` set losers)"
  let ?n = "newRow now st em ph (Some (id_c rootPrimary)) Secondary"
  note root = fetched_primary[OF wellFormed_distinct[OF wf] f attached(2), of rootPrimary, simplified]
  have groot: "?g rootPrimary \<in> set (rows st')" "live (?g rootPrimary)"
    "linkPrecedence (?g rootPrimary) = Primary" "id_c (?g rootPrimary) = id_c rootPrimary"
    using root attached(3,4) by (simp_all add: mergedRow_precedence)
  show ?thesis
  proof (rule forestI)
    fix c assume c: "c \<in> set (rows st')" "live c"
    from c(1) attached(4) consider c0 where "c0 \<in> set (rows st)" "c = ?g c0" | "c = ?n" by auto
    then show "(linkPrecedence c = Primary \<longrightarrow> linkedId c = None) \<and>
      (linkPrecedence c = Secondary \<longrightarrow>
         (\<exists>d\<in>set (rows st'). live d \<and> linkPrecedence d = Primary \<and> linkedId c = Some (id_c d)))"
    proof cases
      case 1
      with c(2) have l0: "live c0" by simp
      from forest_merged[OF wellFormed_distinct[OF wf] f _ _ _ attached(3) 1(1) l0, of now] root
      have "(linkPrecedence c = Primary \<longrightarrow> linkedId c = None) \<and>
        (linkPrecedence c = Secondary \<longrightarrow>
           (\<exists>d\<in>set (rows st). live d \<and> linkPrecedence (?g d) = Primary \<and> linkedId c = Some (id_c d)))"
        unfolding 1(2) by simp
      then show ?thesis unfolding attached(4) by fastforce
    next
      case 2
      with groot show ?thesis by (metis LinkPrecedence.distinct(1) newRow_fields(4,5))
    qed
  qed
qed

lemma reconcileAll_invariant:
  assumes "reconcileAll calls st = Some st'" and "wellFormed st" and "forest st"
  shows "wellFormed st' \<and> forest st'"
  using assms
proof (induction calls arbitrary: st)
  case Nil
  then show ?case by simp
next
  case (Cons call calls)
  obtain now em ph where call: "call = (now, em, ph)" by (cases call)
  from Cons.prems(1) obtain st1 r where s: "reconcile now st em ph = Inr (st1, r)"
    "reconcileAll calls st1 = Some st'"
    by (auto simp: call split: sum.splits)
  from reconcile_preserves_wellFormed[OF Cons.prems(2) s(1)]
    reconcile_preserves_forest[OF Cons.prems(2,3) s(1)]
    Cons.IH[OF s(2)]
  show ?case by simp
qed

lemma emptyStore_invariants:
  "wellFormed emptyStore" "forest emptyStore" "atMostOnePrimary emptyStore"
  "exactlyOnePrimary emptyStore"
  by (simp_all add: wellFormed_def forest_def atMostOnePrimary_def exactlyOnePrimary_def
      emptyStore_def liveRows_def)

lemma linkedToPrimaryD:
  "linkedToPrimary st \<Longrightarrow> c \<in> set (rows st) \<Longrightarrow> live c \<Longrightarrow> d \<in> set (rows st) \<Longrightarrow> live d \<Longrightarrow>
   linkedId c = Some (id_c d) \<Longrightarrow> linkPrecedence d = Primary"
  by (simp add: linkedToPrimary_def)

lemma linkedToPrimaryI:
  assumes "\<And>c d. c \<in> set (rows st) \<Longrightarrow> live c \<Longrightarrow> d \<in> set (rows st) \<Longrightarrow> live d \<Longrightarrow>
             linkedId c = Some (id_c d) \<Longrightarrow> linkPrecedence d = Primary"
  shows "linkedToPrimary st"
  unfolding linkedToPrimary_def using assms by auto

lemma forest_linkedToPrimary:
  assumes wf: "wellFormed st" and f: "forest st"
  shows "linkedToPrimary st"
proof (rule linkedToPrimaryI)
  fix c d assume c: "c \<in> set (rows st)" "live c" and d: "d \<in> set (rows st)" "live d"
    and l: "linkedId c = Some (id_c d)"
  from forest_primary[OF f c] l have "linkPrecedence c = Secondary"
    by (cases "linkPrecedence c") auto
  from forest_secondary[OF f c this] obtain e where e: "e \<in> set (rows st)"
    "linkPrecedence e = Primary" "linkedId c = Some (id_c e)" by blast
  with l have "id_c e = id_c d" by simp
  with distinct_ids_eq[OF wellFormed_distinct[OF wf] e(1) d(1)] e(2)
  show "linkPrecedence d = Primary" by simp
qed

lemma linkedToPrimary_depthOne: "linkedToPrimary st \<Longrightarrow> depthOne st"
  unfolding linkedToPrimary_def depthOne_def by fastforce

text \<open>The survivor is a primary.\<close>

lemma survivor_primary:
  assumes wf: "wellFormed st" and ltp: "linkedToPrimary st"
    and fetch: "fetchPrimaries st (primaryIds (matchingContacts st em ph)) = Inr (rootPrimary # losers)"
  shows "linkPrecedence rootPrimary = Primary"
proof -
  have root: "rootPrimary \<in> set (rows st)" "live rootPrimary"
    "Some (id_c rootPrimary) \<in> set (primaryIds (matchingContacts st em ph))"
    using fetched_in_rows[OF fetch, of rootPrimary] by simp_all
  then obtain m where m: "m \<in> set (rows st)" "live m" "rootIdOf m = Some (id_c rootPrimary)"
    by (auto simp: primaryIds_def matching_set)
  show ?thesis
  proof (cases "linkPrecedence m = Primary")
    case True
    with m(3) have "id_c m = id_c rootPrimary" by (simp add: rootIdOf_def)
    with distinct_ids_eq[OF wellFormed_distinct[OF wf] m(1) root(1)] True show ?thesis by simp
  next
    case False
    with m(3) have "linkedId m = Some (id_c rootPrimary)" by (simp add: rootIdOf_def)
    from linkedToPrimaryD[OF ltp m(1,2) root(1,2) this] show ?thesis .
  qed
qed

text \<open>What a row of the merged table points to.\<close>

lemma merged_link_primary:
  assumes wf: "wellFormed st" and ltp: "linkedToPrimary st"
    and root: "rootPrimary \<in> set (rows st)" "linkPrecedence rootPrimary = Primary"
    and notin: "id_c rootPrimary \<notin> L"
    and c: "c \<in> set (rows st)" "live c" and d: "d \<in> set (rows st)" "live d"
    and l: "linkedId (mergedRow now (id_c rootPrimary) L c) = Some (id_c d)"
  shows "linkPrecedence (mergedRow now (id_c rootPrimary) L d) = Primary"
proof (cases "id_c c \<in> L \<or> (linkedId c \<in> Some ` L \<and> live c)")
  case True
  with l have "id_c d = id_c rootPrimary" by (simp add: mergedRow_linkedId)
  with distinct_ids_eq[OF wellFormed_distinct[OF wf] d(1) root(1)] have "d = rootPrimary" by simp
  with root(2) notin show ?thesis by (simp add: mergedRow_precedence)
next
  case False
  with l have l0: "linkedId c = Some (id_c d)" by (simp add: mergedRow_linkedId)
  from linkedToPrimaryD[OF ltp c d l0] have p: "linkPrecedence d = Primary" .
  from False l0 c(2) have "id_c d \<notin> L" by auto
  with p show ?thesis by (simp add: mergedRow_precedence)
qed

lemma reconcile_preserves_linkedToPrimary:
  assumes wf: "wellFormed st" and ltp: "linkedToPrimary st"
    and ok: "reconcile now st em ph = Inr (st', r)"
  shows "linkedToPrimary st'"
  using wellFormed_distinct[OF wf] ok
proof (cases rule: reconcile_shape)
  case fresh
  let ?N = "newRow now st em ph None Primary"
  show ?thesis
  proof (rule linkedToPrimaryI)
    fix c d assume c: "c \<in> set (rows st')" "live c" and d: "d \<in> set (rows st')" "live d"
      and l: "linkedId c = Some (id_c d)"
    from c(1) l fresh(2) have c0: "c \<in> set (rows st)" by auto
    show "linkPrecedence d = Primary"
    proof (cases "d = ?N")
      case True
      then show ?thesis by simp
    next
      case False
      with d(1) fresh(2) have "d \<in> set (rows st)" by simp
      from linkedToPrimaryD[OF ltp c0 c(2) this d(2) l] show ?thesis .
    qed
  qed
next
  case (kept rootPrimary losers)
  let ?g = "mergedRow now (id_c rootPrimary) (id_c ` set losers)"
  have root: "rootPrimary \<in> set (rows st)"
    using fetched_in_rows[OF kept(2), of rootPrimary] by simp
  note prim = survivor_primary[OF wf ltp kept(2)]
  show ?thesis
  proof (rule linkedToPrimaryI)
    fix c d assume c: "c \<in> set (rows st')" "live c" and d: "d \<in> set (rows st')" "live d"
      and l: "linkedId c = Some (id_c d)"
    from c kept(5) obtain c0 where c0: "c0 \<in> set (rows st)" "live c0" "c = ?g c0" by auto
    from d kept(5) obtain d0 where d0: "d0 \<in> set (rows st)" "live d0" "d = ?g d0" by auto
    from l c0(3) d0(3) have "linkedId (?g c0) = Some (id_c d0)" by simp
    from merged_link_primary[OF wf ltp root prim kept(3) c0(1,2) d0(1,2) this] d0(3)
    show "linkPrecedence d = Primary" by simp
  qed
next
  case (attached rootPrimary losers)
  let ?g = "mergedRow now (id_c rootPrimary) (id_c ` set losers)"
  let ?N = "newRow now st em ph (Some (id_c rootPrimary)) Secondary"
  have root: "rootPrimary \<in> set (rows st)" "live rootPrimary"
    using fetched_in_rows[OF attached(2), of rootPrimary] by simp_all
  note prim = survivor_primary[OF wf ltp attached(2)]
  have rid: "id_c rootPrimary \<noteq> nextId st"
    using old_id[OF attached(5) root(1)] .
  have target: "\<exists>d0. d0 \<in> set (rows st) \<and> live d0 \<and> d = ?g d0"
    if d: "d \<in> set (rows st')" "live d" and old: "id_c d \<in> id_c ` set (rows st)" for d
  proof (cases "d = ?N")
    case True
    with old attached(5) show ?thesis by simp
  next
    case False
    with d attached(4) show ?thesis by auto
  qed
  show ?thesis
  proof (rule linkedToPrimaryI)
    fix c d assume c: "c \<in> set (rows st')" "live c" and d: "d \<in> set (rows st')" "live d"
      and l: "linkedId c = Some (id_c d)"
    show "linkPrecedence d = Primary"
    proof (cases "c = ?N")
      case True
      with l have "id_c d = id_c rootPrimary" by simp
      with root(1) have "id_c d \<in> id_c ` set (rows st)" by (metis imageI)
      from target[OF d this] obtain d0 where d0: "d0 \<in> set (rows st)" "d = ?g d0" by blast
      with \<open>id_c d = id_c rootPrimary\<close>
        distinct_ids_eq[OF wellFormed_distinct[OF wf] d0(1) root(1)]
      have "d0 = rootPrimary" by simp
      with d0(2) prim attached(3) show ?thesis by (simp add: mergedRow_precedence)
    next
      case False
      with c attached(4) obtain c0 where c0: "c0 \<in> set (rows st)" "live c0" "c = ?g c0" by auto
      have "id_c d \<in> id_c ` set (rows st)"
      proof (cases "id_c c0 \<in> id_c ` set losers \<or> (linkedId c0 \<in> Some ` id_c ` set losers \<and> live c0)")
        case True
        with l c0(3) have "id_c d = id_c rootPrimary" by (simp add: mergedRow_linkedId)
        with root(1) show ?thesis by (metis imageI)
      next
        case False
        with l c0(3) have "linkedId c0 = Some (id_c d)" by (simp add: mergedRow_linkedId)
        from wellFormed_fk[OF wf c0(1) this] show ?thesis .
      qed
      from target[OF d this] obtain d0 where d0: "d0 \<in> set (rows st)" "live d0" "d = ?g d0"
        by blast
      from l c0(3) d0(3) have "linkedId (?g c0) = Some (id_c d0)" by simp
      from merged_link_primary[OF wf ltp root(1) prim attached(3) c0(1,2) d0(1,2) this] d0(3)
      show ?thesis by simp
    qed
  qed
qed

lemma reconcileAll_linkedToPrimary:
  assumes "reconcileAll calls st = Some st'" and "wellFormed st" and "linkedToPrimary st"
  shows "wellFormed st' \<and> linkedToPrimary st'"
  using assms
proof (induction calls arbitrary: st)
  case Nil
  then show ?case by simp
next
  case (Cons call calls)
  obtain now em ph where call: "call = (now, em, ph)" by (cases call)
  from Cons.prems(1) obtain st1 r where s: "reconcile now st em ph = Inr (st1, r)"
    "reconcileAll calls st1 = Some st'"
    by (auto simp: call split: sum.splits)
  from reconcile_preserves_wellFormed[OF Cons.prems(2) s(1)]
    reconcile_preserves_linkedToPrimary[OF Cons.prems(2,3) s(1)]
    Cons.IH[OF s(2)]
  show ?case by simp
qed

text \<open>
  C5. From a store that satisfies the database constraints and in which every live row
  named by a live row's \<open>linkedId\<close> is a primary (as in every forest of depth one), each
  sequence of successful calls of \<open>reconcile\<close> leads to a store of the same kind: no live
  secondary is referenced by another live row's \<open>linkedId\<close>, and a forest stays a forest.
  Each call is one transaction: the demotion of a loser followed by the re-link of its
  children is inside it.
\<close>

theorem depthOne_after_reconciles:
  assumes "wellFormed st" and "linkedToPrimary st" and "reconcileAll calls st = Some st'"
  shows "depthOne st' \<and> linkedToPrimary st' \<and> wellFormed st' \<and> (forest st \<longrightarrow> forest st')"
proof -
  from reconcileAll_linkedToPrimary[OF assms(3,1,2)]
  have a: "wellFormed st'" "linkedToPrimary st'" by simp_all
  from reconcileAll_invariant[OF assms(3,1)] have "forest st \<longrightarrow> forest st'" by simp
  with a linkedToPrimary_depthOne[OF a(2)] show ?thesis by simp
qed

text \<open>
  The theorem at the triangular cascade of scenario 5, which merges twice, and at a call on
  a store with a soft-deleted primary.
\<close>

theorem depthOne_after_reconciles_witness:
  "wellFormed emptyStore \<and> linkedToPrimary emptyStore \<and> forest emptyStore \<and>
   reconcileAll cascadeCalls emptyStore = Some cascadeStore \<and>
   depthOne cascadeStore \<and> linkedToPrimary cascadeStore \<and> wellFormed cascadeStore \<and>
   forest cascadeStore \<and>
   wellFormed orphanStore \<and> linkedToPrimary orphanStore \<and>
   reconcileAll [(50, Some ''a@hv.edu'', Some ''333'')] orphanStore = Some orphanStoreAfter \<and>
   depthOne orphanStoreAfter"
proof -
  have run: "reconcileAll cascadeCalls emptyStore = Some cascadeStore" by code_simp
  have l0: "linkedToPrimary emptyStore"
    by (simp add: linkedToPrimary_def emptyStore_def liveRows_def)
  note c = depthOne_after_reconciles[OF emptyStore_invariants(1) l0 run]
  have w1: "wellFormed orphanStore"
    by (simp add: wellFormed_def orphanStore_def row_def)
  have l1: "linkedToPrimary orphanStore"
    by (simp add: linkedToPrimary_def orphanStore_def row_def liveRows_def live_def)
  have run1: "reconcileAll [(50, Some ''a@hv.edu'', Some ''333'')] orphanStore = Some orphanStoreAfter"
    by code_simp
  note o = depthOne_after_reconciles[OF w1 l1 run1]
  from c o emptyStore_invariants(1,2) l0 run w1 l1 run1 show ?thesis by simp
qed

section \<open>At most one primary in a class\<close>

lemma shares_sym: "shares c d \<Longrightarrow> shares d c"
  unfolding shares_def by metis

lemma sym_shareIds: "sym (shareIds st)"
  unfolding sym_def shareIds_def using shares_sym by blast

lemma shareIds_field:
  "(i, j) \<in> shareIds st \<Longrightarrow> i \<in> id_c ` set (liveRows st) \<and> j \<in> id_c ` set (liveRows st)"
  unfolding shareIds_def by blast

text \<open>The pairwise form of the invariant.\<close>

lemma atMostOnePrimary_iff:
  "atMostOnePrimary st \<longleftrightarrow>
     (\<forall>d\<in>set (liveRows st). \<forall>e\<in>set (liveRows st).
        linkPrecedence d = Primary \<and> linkPrecedence e = Primary \<and>
        (id_c d, id_c e) \<in> (shareIds st)\<^sup>* \<longrightarrow> id_c d = id_c e)"
  (is "?L \<longleftrightarrow> ?R")
proof
  assume l: ?L
  show ?R
  proof (intro ballI impI)
    fix d e assume d: "d \<in> set (liveRows st)" and e: "e \<in> set (liveRows st)"
      and h: "linkPrecedence d = Primary \<and> linkPrecedence e = Primary \<and>
              (id_c d, id_c e) \<in> (shareIds st)\<^sup>*"
    have "id_c d \<in> primariesInClass st (id_c d)"
      unfolding primariesInClass_def sameClass_def using d h by blast
    moreover have "id_c e \<in> primariesInClass st (id_c d)"
      unfolding primariesInClass_def sameClass_def using e h by blast
    ultimately show "id_c d = id_c e"
      using l d unfolding atMostOnePrimary_def by blast
  qed
next
  assume r: ?R
  show ?L
    unfolding atMostOnePrimary_def
  proof (intro ballI allI impI)
    fix c i j assume c: "c \<in> set (liveRows st)"
      and h: "i \<in> primariesInClass st (id_c c) \<and> j \<in> primariesInClass st (id_c c)"
    then obtain d e where d: "d \<in> set (liveRows st)" "i = id_c d" "linkPrecedence d = Primary"
        "(id_c c, i) \<in> (shareIds st)\<^sup>*"
      and e: "e \<in> set (liveRows st)" "j = id_c e" "linkPrecedence e = Primary"
        "(id_c c, j) \<in> (shareIds st)\<^sup>*"
      unfolding primariesInClass_def sameClass_def by blast
    have "(i, id_c c) \<in> (shareIds st)\<^sup>*"
      using d(4) sym_rtrancl[OF sym_shareIds, of st] by (simp add: sym_def)
    from this e(4) have "(i, j) \<in> (shareIds st)\<^sup>*" by (rule rtrancl_trans)
    with r d e show "i = j" by blast
  qed
qed

text \<open>Paths through a new node whose neighbours are pairwise related.\<close>

lemma rtrancl_image:
  assumes "\<And>x y. (x, y) \<in> R' \<Longrightarrow> (h x, h y) \<in> R\<^sup>*" and "(x, y) \<in> R'\<^sup>*"
  shows "(h x, h y) \<in> R\<^sup>*"
  using assms(2)
proof (induction rule: rtrancl_induct)
  case base
  show ?case by simp
next
  case (step y z)
  from step.IH assms(1)[OF step.hyps(2)] show ?case by (rule rtrancl_trans)
qed

lemma add_node:
  assumes sub: "R' \<subseteq> R \<union> {(n, n)} \<union> ({n} \<times> B) \<union> (B \<times> {n})"
    and clique: "B \<times> B \<subseteq> R"
    and new: "\<And>x y. (x, y) \<in> R \<Longrightarrow> x \<noteq> n \<and> y \<noteq> n"
    and ij: "i \<noteq> n" "j \<noteq> n" "(i, j) \<in> R'\<^sup>*"
  shows "(i, j) \<in> R\<^sup>*"
proof -
  define h where "h x = (if x = n \<and> B \<noteq> {} then (SOME b. b \<in> B) else x)" for x
  have b0: "(SOME b. b \<in> B) \<in> B" if "B \<noteq> {}"
    using that by (simp add: some_in_eq)
  have step: "(h x, h y) \<in> R\<^sup>*" if "(x, y) \<in> R'" for x y
  proof -
    from that sub consider "(x, y) \<in> R" | "x = n \<and> y = n" | "x = n \<and> y \<in> B" | "x \<in> B \<and> y = n"
      by blast
    then show ?thesis
    proof cases
      case 1
      with new[of x y] show ?thesis by (auto simp: h_def)
    next
      case 2
      then show ?thesis by simp
    next
      case 3
      then have ne: "B \<noteq> {}" by auto
      from 3 b0[OF ne] clique have "((SOME b. b \<in> B), y) \<in> R" by blast
      moreover from this new have "y \<noteq> n" by blast
      ultimately show ?thesis using 3 ne by (auto simp: h_def)
    next
      case 4
      then have ne: "B \<noteq> {}" by auto
      from 4 b0[OF ne] clique have "(x, (SOME b. b \<in> B)) \<in> R" by blast
      moreover from this new have "x \<noteq> n" by blast
      ultimately show ?thesis using 4 ne by (auto simp: h_def)
    qed
  qed
  from rtrancl_image[of R' h R, OF step ij(3)] ij(1,2) show ?thesis
    by (simp add: h_def)
qed

lemma isolated_node:
  assumes sub: "R' \<subseteq> R \<union> {(n, n)}"
    and new: "\<And>x y. (x, y) \<in> R \<Longrightarrow> x \<noteq> n \<and> y \<noteq> n"
    and ij: "(i, j) \<in> R'\<^sup>*"
  shows "(i = n) = (j = n)"
  using ij
proof (induction rule: rtrancl_induct)
  case base
  show ?case by simp
next
  case (step y z)
  from step.hyps(2) sub have "(y, z) \<in> R \<or> (y = n \<and> z = n)" by blast
  with new[of y z] step.IH show ?case by auto
qed

text \<open>The relation after a call, from the rows the call leaves.\<close>

lemma shareIds_mapped:
  assumes "rows st' = map g (rows st)"
    and "\<And>c. id_c (g c) = id_c c \<and> email (g c) = email c \<and>
              phoneNumber (g c) = phoneNumber c \<and> live (g c) = live c"
  shows "shareIds st' = shareIds st"
proof -
  have sh: "shares (g c) (g d) = shares c d" for c d
    using assms(2) by (simp add: shares_def)
  show ?thesis
    unfolding shareIds_def liveRows_def assms(1)
    using assms(2) sh by (auto simp: image_iff) (metis)+
qed

lemma shareIds_appended:
  assumes rows': "rows st' = map g (rows st) @ [N]"
    and g: "\<And>c. id_c (g c) = id_c c \<and> email (g c) = email c \<and>
              phoneNumber (g c) = phoneNumber c \<and> live (g c) = live c"
  shows "shareIds st' \<subseteq> shareIds st \<union> {(id_c N, id_c N)}
           \<union> ({id_c N} \<times> {id_c c |c. c \<in> set (liveRows st) \<and> shares N c})
           \<union> ({id_c c |c. c \<in> set (liveRows st) \<and> shares N c} \<times> {id_c N})"
proof
  fix p assume "p \<in> shareIds st'"
  then obtain c' d' where p: "p = (id_c c', id_c d')" and c': "c' \<in> set (rows st')" "live c'"
    and d': "d' \<in> set (rows st')" "live d'" and sh: "shares c' d'"
    unfolding shareIds_def by auto
  have sh': "shares (g c) (g d) = shares c d" "shares N (g d) = shares N d"
    "shares (g c) N = shares c N" for c d
    using g by (simp_all add: shares_def)
  from c'(1) rows' consider c where "c \<in> set (rows st)" "c' = g c" | "c' = N" by auto
  then show "p \<in> shareIds st \<union> {(id_c N, id_c N)}
           \<union> ({id_c N} \<times> {id_c c |c. c \<in> set (liveRows st) \<and> shares N c})
           \<union> ({id_c c |c. c \<in> set (liveRows st) \<and> shares N c} \<times> {id_c N})"
  proof cases
    case 1
    from d'(1) rows' consider d where "d \<in> set (rows st)" "d' = g d" | "d' = N" by auto
    then show ?thesis
    proof cases
      case (1 d)
      with \<open>c \<in> set (rows st)\<close> \<open>c' = g c\<close> c'(2) d'(2) sh g sh'(1)
      have "(id_c c, id_c d) \<in> shareIds st"
        unfolding shareIds_def by auto
      with 1 \<open>c' = g c\<close> p g show ?thesis by simp
    next
      case 2
      with \<open>c' = g c\<close> sh sh'(3) have "shares N c" using shares_sym by blast
      with \<open>c \<in> set (rows st)\<close> \<open>c' = g c\<close> c'(2) g 2 p show ?thesis by auto
    qed
  next
    case 2
    from d'(1) rows' consider d where "d \<in> set (rows st)" "d' = g d" | "d' = N" by auto
    then show ?thesis
    proof cases
      case (1 d)
      with 2 sh sh'(2) have "shares N d" by simp
      with 1 2 d'(2) g p show ?thesis by auto
    next
      case 2
      with \<open>c' = N\<close> p show ?thesis by simp
    qed
  qed
qed

text \<open>In a forest every match lies in the survivor's group once the merge is done.\<close>

lemma matched_in_group:
  assumes wf: "distinct (map id_c (rows st))" and f: "forest st"
    and fetch: "fetchPrimaries st (primaryIds (matchingContacts st em ph)) = Inr (rootPrimary # losers)"
    and m: "m \<in> set (matchingContacts st em ph)"
  shows "mergedRow now (id_c rootPrimary) (id_c ` set losers) m
           \<in> set (allLinkedOf (mergeLoop now (id_c rootPrimary) losers st) (id_c rootPrimary))"
proof -
  let ?L = "id_c ` set losers" and ?rid = "id_c rootPrimary"
  let ?g = "mergedRow now ?rid ?L"
  note notin = fetched_ids_distinct[OF wf fetch]
  from m have min: "m \<in> set (rows st)" "live m" by (simp_all add: matching_set)
  from matched_root_fetched[OF f fetch m] obtain p where p: "p \<in> set (rootPrimary # losers)"
    "rootIdOf m = Some (id_c p)" by blast
  have "id_c (?g m) = ?rid \<or> linkedId (?g m) = Some ?rid"
  proof (cases "p = rootPrimary")
    case True
    with p(2) show ?thesis
      by (auto simp: rootIdOf_def mergedRow_linkedId split: if_splits)
  next
    case False
    with p(1) have "id_c p \<in> ?L" by auto
    with p(2) min(2) show ?thesis
      by (auto simp: rootIdOf_def mergedRow_linkedId split: if_splits)
  qed
  with min show ?thesis
    by (simp add: allLinkedOf_def mergeLoop_rows[OF notin])
qed

lemma new_email_unknown:
  assumes wf: "distinct (map id_c (rows st))" and f: "forest st"
    and fetch: "fetchPrimaries st (primaryIds (matchingContacts st em ph)) = Inr (rootPrimary # losers)"
    and new: "hasNewEmail em
                (allLinkedOf (mergeLoop now (id_c rootPrimary) losers st) (id_c rootPrimary))"
    and n: "normalized em" and c: "c \<in> set (rows st)" "live c"
  shows "email c \<noteq> em"
proof
  assume e: "email c = em"
  from new have "em \<noteq> None" by (simp add: hasNewEmail_def)
  with n have "truthy em" by (simp add: truthy_def normalized_def)
  with e c have "c \<in> set (matchingContacts st em ph)"
    by (simp add: matching_set matchesInput_def)
  from matched_in_group[OF wf f fetch this, of now] hasNewEmail_no_row[OF new n] e
  show False by fastforce
qed

lemma new_phone_unknown:
  assumes wf: "distinct (map id_c (rows st))" and f: "forest st"
    and fetch: "fetchPrimaries st (primaryIds (matchingContacts st em ph)) = Inr (rootPrimary # losers)"
    and new: "hasNewPhone ph
                (allLinkedOf (mergeLoop now (id_c rootPrimary) losers st) (id_c rootPrimary))"
    and n: "normalized ph" and c: "c \<in> set (rows st)" "live c"
  shows "phoneNumber c \<noteq> ph"
proof
  assume e: "phoneNumber c = ph"
  from new have "ph \<noteq> None" by (simp add: hasNewPhone_def)
  with n have "truthy ph" by (simp add: truthy_def normalized_def)
  with e c have "c \<in> set (matchingContacts st em ph)"
    by (simp add: matching_set matchesInput_def)
  from matched_in_group[OF wf f fetch this, of now] hasNewPhone_no_row[OF new n] e
  show False by fastforce
qed

lemma mergedRow_keeps:
  "id_c (mergedRow now rid L c) = id_c c \<and> email (mergedRow now rid L c) = email c \<and>
   phoneNumber (mergedRow now rid L c) = phoneNumber c \<and> live (mergedRow now rid L c) = live c"
  by simp

lemma mergedRow_primary: "linkPrecedence (mergedRow now rid L c) = Primary \<Longrightarrow> linkPrecedence c = Primary"
  by (simp add: mergedRow_precedence split: if_splits)

lemma shareIds_old:
  assumes "nextId st \<notin> id_c ` set (rows st)" and "(x, y) \<in> shareIds st"
  shows "x \<noteq> nextId st \<and> y \<noteq> nextId st"
proof -
  from shareIds_field[OF assms(2)] obtain c d where "c \<in> set (rows st)" "x = id_c c"
    "d \<in> set (rows st)" "y = id_c d" by auto
  with old_id[OF assms(1)] show ?thesis by simp
qed

lemma reconcile_preserves_atMostOnePrimary:
  assumes wf: "wellFormed st" and f: "forest st" and one: "atMostOnePrimary st"
    and norm: "normalized em" "normalized ph"
    and ok: "reconcile now st em ph = Inr (st', r)"
  shows "atMostOnePrimary st'"
  using wellFormed_distinct[OF wf] ok
proof (cases rule: reconcile_shape)
  case fresh
  let ?N = "newRow now st em ph None Primary"
  have rows': "rows st' = map (\<lambda>c. c) (rows st) @ [?N]" using fresh(2) by simp
  have noshare: "\<not> shares ?N c" if "c \<in> set (liveRows st)" for c
  proof
    assume "shares ?N c"
    then have "(em \<noteq> None \<and> email c = em) \<or> (ph \<noteq> None \<and> phoneNumber c = ph)"
      by (auto simp: shares_def)
    with norm have "matchesInput em ph c"
      by (auto simp: matchesInput_def truthy_def normalized_def)
    with that have "c \<in> set (matchingContacts st em ph)" by (simp add: matching_set)
    with fresh(1) show False by simp
  qed
  have sub: "shareIds st' \<subseteq> shareIds st \<union> {(nextId st, nextId st)}"
    using shareIds_appended[of st' "\<lambda>c. c" st ?N, OF rows'] noshare by auto
  show ?thesis
    unfolding atMostOnePrimary_iff
  proof (intro ballI impI)
    fix d e assume d: "d \<in> set (liveRows st')" and e: "e \<in> set (liveRows st')"
      and h: "linkPrecedence d = Primary \<and> linkPrecedence e = Primary \<and>
              (id_c d, id_c e) \<in> (shareIds st')\<^sup>*"
    from h have path: "(id_c d, id_c e) \<in> (shareIds st')\<^sup>*" by simp
    note iso = isolated_node[OF sub shareIds_old[OF fresh(3)] path]
    show "id_c d = id_c e"
    proof (cases "id_c d = nextId st")
      case True
      with iso show ?thesis by simp
    next
      case False
      with iso have ne: "id_c e \<noteq> nextId st" by simp
      from d False fresh(2) have d0: "d \<in> set (liveRows st)" by auto
      from e ne fresh(2) have e0: "e \<in> set (liveRows st)" by auto
      have "shareIds st' \<subseteq> shareIds st \<union> {(nextId st, nextId st)} \<union> ({nextId st} \<times> {})
              \<union> ({} \<times> {nextId st})" using sub by simp
      from add_node[OF this _ shareIds_old[OF fresh(3)] False ne path]
      have "(id_c d, id_c e) \<in> (shareIds st)\<^sup>*" by simp
      with one[unfolded atMostOnePrimary_iff] d0 e0 h show ?thesis by blast
    qed
  qed
next
  case (kept rootPrimary losers)
  have same: "shareIds st' = shareIds st"
    using shareIds_mapped[OF kept(5)] mergedRow_keeps by blast
  show ?thesis
    unfolding atMostOnePrimary_iff same
  proof (intro ballI impI)
    fix d e assume d: "d \<in> set (liveRows st')" and e: "e \<in> set (liveRows st')"
      and h: "linkPrecedence d = Primary \<and> linkPrecedence e = Primary \<and>
              (id_c d, id_c e) \<in> (shareIds st)\<^sup>*"
    from d kept(5) obtain d0 where d0: "d0 \<in> set (liveRows st)" "id_c d0 = id_c d"
      "linkPrecedence d = Primary \<longrightarrow> linkPrecedence d0 = Primary"
      using mergedRow_primary by fastforce
    from e kept(5) obtain e0 where e0: "e0 \<in> set (liveRows st)" "id_c e0 = id_c e"
      "linkPrecedence e = Primary \<longrightarrow> linkPrecedence e0 = Primary"
      using mergedRow_primary by fastforce
    from one[unfolded atMostOnePrimary_iff] d0 e0 h show "id_c d = id_c e" by metis
  qed
next
  case (attached rootPrimary losers)
  let ?g = "mergedRow now (id_c rootPrimary) (id_c ` set losers)"
  let ?N = "newRow now st em ph (Some (id_c rootPrimary)) Secondary"
  let ?B = "{id_c c |c. c \<in> set (liveRows st) \<and> shares ?N c}"
  have sub: "shareIds st' \<subseteq> shareIds st \<union> {(nextId st, nextId st)}
               \<union> ({nextId st} \<times> ?B) \<union> (?B \<times> {nextId st})"
    using shareIds_appended[of st' ?g st ?N, OF attached(4) mergedRow_keeps] by simp
  have clique: "?B \<times> ?B \<subseteq> shareIds st"
  proof -
    have "shares c d" if c: "c \<in> set (liveRows st)" "shares ?N c"
      and d: "d \<in> set (liveRows st)" "shares ?N d" for c d
    proof -
      from attached(6) consider
        "hasNewEmail em (allLinkedOf (mergeLoop now (id_c rootPrimary) losers st) (id_c rootPrimary))"
        | "hasNewPhone ph (allLinkedOf (mergeLoop now (id_c rootPrimary) losers st) (id_c rootPrimary))"
        by (auto simp: attachNeeded_def)
      then show ?thesis
      proof cases
        case 1
        from new_email_unknown[OF wellFormed_distinct[OF wf] f attached(2) 1 norm(1)] c(1) d(1)
        have "email c \<noteq> em" "email d \<noteq> em" by simp_all
        with c(2) d(2) show ?thesis by (auto simp: shares_def)
      next
        case 2
        from new_phone_unknown[OF wellFormed_distinct[OF wf] f attached(2) 2 norm(2)] c(1) d(1)
        have "phoneNumber c \<noteq> ph" "phoneNumber d \<noteq> ph" by simp_all
        with c(2) d(2) show ?thesis by (auto simp: shares_def)
      qed
    qed
    then show ?thesis unfolding shareIds_def by blast
  qed
  show ?thesis
    unfolding atMostOnePrimary_iff
  proof (intro ballI impI)
    fix d e assume d: "d \<in> set (liveRows st')" and e: "e \<in> set (liveRows st')"
      and h: "linkPrecedence d = Primary \<and> linkPrecedence e = Primary \<and>
              (id_c d, id_c e) \<in> (shareIds st')\<^sup>*"
    from d h attached(4) obtain d0 where d0: "d0 \<in> set (liveRows st)" "id_c d0 = id_c d"
      "linkPrecedence d0 = Primary"
      using mergedRow_primary by fastforce
    from e h attached(4) obtain e0 where e0: "e0 \<in> set (liveRows st)" "id_c e0 = id_c e"
      "linkPrecedence e0 = Primary"
      using mergedRow_primary by fastforce
    from d0 old_id[OF attached(5), of d0] have dn: "id_c d \<noteq> nextId st" by simp
    from e0 old_id[OF attached(5), of e0] have en: "id_c e \<noteq> nextId st" by simp
    from h have path: "(id_c d, id_c e) \<in> (shareIds st')\<^sup>*" by simp
    from add_node[OF sub clique shareIds_old[OF attached(5)] dn en path]
    have "(id_c d, id_c e) \<in> (shareIds st)\<^sup>*" .
    with one[unfolded atMostOnePrimary_iff] d0 e0 show "id_c d = id_c e" by metis
  qed
qed

text \<open>
  C1 (as amended). From a store that satisfies the database constraints, is a forest of
  depth one and has at most one live primary in each class of the closure of "shares
  email or shares phone", every sequence of successful calls of \<open>reconcile\<close> on normalized
  inputs (fields absent or non-empty) leads to a store with at most one live primary in
  each class; it is again a forest, in which each live secondary points to one live
  primary.
\<close>

theorem atMostOnePrimary_after_reconciles:
  assumes "wellFormed st" and "forest st" and "atMostOnePrimary st"
    and "list_all normalizedCall calls"
    and "reconcileAll calls st = Some st'"
  shows "atMostOnePrimary st' \<and> forest st' \<and> wellFormed st'"
  using assms
proof (induction calls arbitrary: st)
  case Nil
  then show ?case by simp
next
  case (Cons call calls)
  obtain now em ph where call: "call = (now, em, ph)" by (cases call)
  from Cons.prems(5) obtain st1 r where s: "reconcile now st em ph = Inr (st1, r)"
    "reconcileAll calls st1 = Some st'"
    by (auto simp: call split: sum.splits)
  from Cons.prems(4) have nc: "normalizedCall call" and rest: "list_all normalizedCall calls"
    by simp_all
  from nc have n: "normalized em" "normalized ph"
    by (simp_all add: call normalizedCall_def)
  from reconcile_preserves_wellFormed[OF Cons.prems(1) s(1)]
    reconcile_preserves_forest[OF Cons.prems(1,2) s(1)]
    reconcile_preserves_atMostOnePrimary[OF Cons.prems(1,2,3) n s(1)]
    rest s(2)
  show ?case by (rule Cons.IH)
qed

text \<open>
  The theorem at the merge of scenario 4.
\<close>

theorem atMostOnePrimary_after_reconciles_witness:
  "wellFormed emptyStore \<and> forest emptyStore \<and> atMostOnePrimary emptyStore \<and>
   list_all normalizedCall mergeCalls \<and>
   reconcileAll mergeCalls emptyStore = Some mergedGroupsStore \<and>
   atMostOnePrimary mergedGroupsStore \<and> forest mergedGroupsStore \<and>
   wellFormed mergedGroupsStore"
proof -
  have run: "reconcileAll mergeCalls emptyStore = Some mergedGroupsStore" by code_simp
  have n: "list_all normalizedCall mergeCalls" by code_simp
  from atMostOnePrimary_after_reconciles[OF emptyStore_invariants(1,2,3) n run]
    emptyStore_invariants(1,2,3) run n
  show ?thesis by simp
qed

lemma rtrancl_within_Id:
  assumes "(i, j) \<in> R\<^sup>*" and "R \<subseteq> Id"
  shows "i = j"
  using assms by (induction rule: rtrancl_induct) auto

text \<open>
  C1 as stated fails. A merge links two groups by \<open>linkedId\<close> without inserting a row
  that shares a value with both: after scenario 4 the class of row 2 (biff) holds no
  primary at all. And for the empty string, which is matched on by no query but is
  stored as given, two calls leave two primaries with the same email in one class.
\<close>

theorem exactlyOnePrimary_counterexample:
  "wellFormed emptyStore \<and> forest emptyStore \<and> exactlyOnePrimary emptyStore \<and>
   reconcileAll mergeCalls emptyStore = Some mergedGroupsStore \<and>
   primariesInClass mergedGroupsStore 2 = {} \<and>
   \<not> exactlyOnePrimary mergedGroupsStore \<and>
   reconcileAll blankCalls emptyStore = Some twoBlankStore \<and>
   primariesInClass twoBlankStore 1 = {1, 2} \<and>
   \<not> atMostOnePrimary twoBlankStore"
proof -
  have run1: "reconcileAll mergeCalls emptyStore = Some mergedGroupsStore" by code_simp
  have run2: "reconcileAll blankCalls emptyStore = Some twoBlankStore" by code_simp
  have live1: "liveRows mergedGroupsStore = rows mergedGroupsStore" by code_simp
  have sub: "shareIds mergedGroupsStore \<subseteq> Id"
    unfolding shareIds_def live1
    by (auto simp: mergedGroupsStore_def row_def shares_def)
  have none: "primariesInClass mergedGroupsStore 2 = {}"
  proof -
    have "\<not> sameClass mergedGroupsStore 2 1"
      unfolding sameClass_def using rtrancl_within_Id[OF _ sub, of 2 1] by auto
    then show ?thesis
      unfolding primariesInClass_def live1
      by (auto simp: mergedGroupsStore_def row_def)
  qed
  have r2: "(row 2 (Some ''biff@hv.edu'') (Some ''717171'') (Some 1) Secondary 20)
                 \<lparr> updatedAt := 30 \<rparr> \<in> set (liveRows mergedGroupsStore)"
    unfolding live1 by (simp add: mergedGroupsStore_def)
  have notex: "\<not> exactlyOnePrimary mergedGroupsStore"
  proof
    assume "exactlyOnePrimary mergedGroupsStore"
    then have "\<forall>c\<in>set (liveRows mergedGroupsStore).
        \<exists>i. primariesInClass mergedGroupsStore (id_c c) = {i}"
      unfolding exactlyOnePrimary_def .
    from bspec[OF this r2] have "\<exists>i. primariesInClass mergedGroupsStore 2 = {i}" by (simp add: row_def)
    with none show False by simp
  qed
  have live2: "liveRows twoBlankStore = rows twoBlankStore" by code_simp
  have edge: "(1, 2) \<in> shareIds twoBlankStore"
    unfolding shareIds_def live2
    by (simp add: twoBlankStore_def row_def shares_def)
  then have cls: "sameClass twoBlankStore 1 2" "sameClass twoBlankStore 1 1"
    unfolding sameClass_def by auto
  have two: "primariesInClass twoBlankStore 1 = {1, 2}"
    unfolding primariesInClass_def live2 using cls
    by (auto simp: twoBlankStore_def row_def)
  have r1: "row 1 (Some []) (Some ''1'') None Primary 10 \<in> set (liveRows twoBlankStore)"
    unfolding live2 by (simp add: twoBlankStore_def)
  have notone: "\<not> atMostOnePrimary twoBlankStore"
  proof
    assume "atMostOnePrimary twoBlankStore"
    then have "\<forall>c\<in>set (liveRows twoBlankStore). \<forall>i j.
        i \<in> primariesInClass twoBlankStore (id_c c) \<and>
        j \<in> primariesInClass twoBlankStore (id_c c) \<longrightarrow> i = j"
      unfolding atMostOnePrimary_def .
    from bspec[OF this r1] have "\<forall>i j. i \<in> primariesInClass twoBlankStore 1 \<and>
        j \<in> primariesInClass twoBlankStore 1 \<longrightarrow> i = j" by (simp add: row_def)
    then have "(1::nat) = 2" unfolding two by blast
    then show False by simp
  qed
  from emptyStore_invariants run1 none notex run2 two notone show ?thesis by simp
qed

section \<open>Idempotence\<close>

lemma insort_key_snoc:
  "f x \<le> f a \<Longrightarrow> insort_key f x (ys @ [a]) = insort_key f x ys @ [a]"
  by (induction ys) simp_all

lemma sort_key_snoc:
  "\<forall>x\<in>set xs. f x \<le> f a \<Longrightarrow> sort_key f (xs @ [a]) = sort_key f xs @ [a]"
  by (induction xs) (simp_all add: insort_key_snoc)

lemma filter_unique_id:
  assumes "distinct (map id_c cs)" and "x \<in> set cs"
  shows "filter (\<lambda>c. id_c c = id_c x) cs = [x]"
  using assms
proof (induction cs)
  case Nil
  then show ?case by simp
next
  case (Cons c cs)
  show ?case
  proof (cases "c = x")
    case True
    with Cons.prems(1) have "id_c x \<notin> id_c ` set cs" by simp
    then have "\<forall>c\<in>set cs. id_c c \<noteq> id_c x" by (metis imageI)
    then have "filter (\<lambda>c. id_c c = id_c x) cs = []"
      by (simp add: filter_empty_conv)
    with True show ?thesis by simp
  next
    case False
    with Cons.prems have "x \<in> set cs" "id_c c \<noteq> id_c x" by auto
    with Cons.IH Cons.prems(1) show ?thesis by simp
  qed
qed

lemma rootIdOf_mergedRow:
  "rootIdOf (mergedRow now rid L m) =
     (if id_c m \<in> L then Some rid
      else if linkedId m \<in> Some ` L \<and> live m
      then (if linkPrecedence m = Primary then Some (id_c m) else Some rid)
      else rootIdOf m)"
  by (auto simp: mergedRow_def rootIdOf_def)

lemma matchesInput_mergedRow [simp]:
  "matchesInput em ph (mergedRow now rid L c) = matchesInput em ph c"
  by (simp add: matchesInput_def)

lemma matchesInput_newRow [simp]: "matchesInput em ph (newRow now st em ph l prec)"
  by (simp add: matchesInput_def)

lemma buildResponse_cong:
  "id_c p = id_c q \<Longrightarrow> email p = email q \<Longrightarrow> phoneNumber p = phoneNumber q \<Longrightarrow>
   buildResponse p ss = buildResponse q ss"
  by (simp add: buildResponse_def)

lemma exactDuplicate_newRow:
  "newRow now st em ph l prec \<in> set cs \<Longrightarrow> exactDuplicate em ph cs"
  unfolding exactDuplicate_def list_ex_iff
  by (rule bexI[of _ "newRow now st em ph l prec"]) simp_all

text \<open>The roots a second call fetches, on the rows a merging call left.\<close>

lemma second_fetch:
  assumes wf: "wellFormed st"
    and ne: "matchingContacts st em ph \<noteq> []"
    and fetch: "fetchPrimaries st (primaryIds (matchingContacts st em ph)) = Inr (rootPrimary # losers)"
    and rows1: "rows st1 = map (mergedRow now (id_c rootPrimary) (id_c ` set losers)) (rows st) @ extra"
    and extra: "extra = [] \<or>
                (extra = [newRow now st em ph (Some (id_c rootPrimary)) Secondary] \<and>
                 nextId st \<notin> id_c ` set (rows st))"
  shows "matchingContacts st1 em ph \<noteq> []"
    and "fetchPrimaries st1 (primaryIds (matchingContacts st1 em ph)) =
           Inr [mergedRow now (id_c rootPrimary) (id_c ` set losers) rootPrimary]"
proof -
  let ?rid = "id_c rootPrimary" and ?L = "id_c ` set losers"
  let ?g = "mergedRow now ?rid ?L"
  let ?N = "newRow now st em ph (Some ?rid) Secondary"
  let ?ms = "matchingContacts st em ph" and ?ms1 = "matchingContacts st1 em ph"
  note d = wellFormed_distinct[OF wf]
  note notin = fetched_ids_distinct[OF d fetch]
  have root: "rootPrimary \<in> set (rows st)" "live rootPrimary"
    "Some ?rid \<in> set (primaryIds ?ms)"
    using fetched_in_rows[OF fetch, of rootPrimary] by simp_all
  have fetched: "id_c c = ?rid \<or> id_c c \<in> ?L"
    if "c \<in> set (rows st)" "live c" "Some (id_c c) \<in> set (primaryIds ?ms)" for c
  proof -
    from that have "c \<in> set (rootPrimary # losers)"
      unfolding fetchPrimaries_Inr(2)[OF fetch] by simp
    then show ?thesis by auto
  qed
  have nonone: "rootIdOf m \<noteq> None" if "m \<in> set ?ms" for m
  proof
    assume "rootIdOf m = None"
    with that have "None \<in> rootIdOf ` set ?ms" by (metis imageI)
    with fetchPrimaries_Inr(1)[OF fetch] show False by (simp add: primaryIds_def)
  qed
  have inroots: "rootIdOf m \<in> set (primaryIds ?ms)" if "m \<in> set ?ms" for m
    using that by (simp add: primaryIds_def)
  have inroots1: "rootIdOf m \<in> set (primaryIds ?ms1)" if "m \<in> set ?ms1" for m
    using that by (simp add: primaryIds_def)
  have ms1: "set ?ms1 = ?g ` set ?ms \<union> set extra"
  proof -
    have "set extra \<subseteq> {c. live c \<and> matchesInput em ph c}"
      using extra by auto
    then show ?thesis
      unfolding matching_set rows1 by auto
  qed
  from ne obtain m0 where "m0 \<in> set ?ms" by (cases ?ms) auto
  with ms1 show "?ms1 \<noteq> []" by auto
  have k1: "None \<notin> set (primaryIds ?ms1)"
  proof -
    have "rootIdOf m' \<noteq> None" if "m' \<in> set ?ms1" for m'
    proof -
      from that ms1 consider m where "m \<in> set ?ms" "m' = ?g m" | "m' \<in> set extra" by auto
      then show ?thesis
      proof cases
        case 1
        with nonone[OF 1(1)] show ?thesis by (simp add: rootIdOf_mergedRow)
      next
        case 2
        with extra show ?thesis by (auto simp: rootIdOf_def)
      qed
    qed
    then have "\<forall>m'\<in>set ?ms1. rootIdOf m' \<noteq> None" by blast
    then show ?thesis unfolding primaryIds_def set_remdups set_map by (metis imageE)
  qed
  have k2: "id_c c' = ?rid"
    if m': "m' \<in> set ?ms1" and c': "c' \<in> set (rows st1)" "live c'"
      and r: "rootIdOf m' = Some (id_c c')" for m' c'
  proof -
    from m' ms1 consider m where "m \<in> set ?ms" "m' = ?g m" | "m' \<in> set extra" by auto
    then show ?thesis
    proof cases
      case 1
      from 1(1) have min: "m \<in> set (rows st)" "live m" by (simp_all add: matching_set)
      show ?thesis
      proof (cases "id_c m \<in> ?L")
        case True
        with r 1(2) show ?thesis by (simp add: rootIdOf_mergedRow)
      next
        case notL: False
        show ?thesis
        proof (cases "linkedId m \<in> Some ` ?L \<and> live m")
          case True
          show ?thesis
          proof (cases "linkPrecedence m = Primary")
            case True
            then have "rootIdOf m = Some (id_c m)" by (simp add: rootIdOf_def)
            with inroots[OF 1(1)] fetched[OF min] notL have "id_c m = ?rid" by simp
            moreover from r 1(2) notL \<open>linkedId m \<in> Some ` ?L \<and> live m\<close> True
            have "id_c c' = id_c m" by (simp add: rootIdOf_mergedRow)
            ultimately show ?thesis by simp
          next
            case False
            with r 1(2) notL True show ?thesis by (simp add: rootIdOf_mergedRow)
          qed
        next
          case False
          with r 1(2) notL have rm: "rootIdOf m = Some (id_c c')"
            by (simp add: rootIdOf_mergedRow)
          have old: "id_c c' \<in> id_c ` set (rows st)"
          proof (cases "linkPrecedence m = Primary")
            case True
            with rm have "id_c c' = id_c m" by (simp add: rootIdOf_def)
            with min(1) show ?thesis by (metis imageI)
          next
            case False
            with rm have "linkedId m = Some (id_c c')" by (simp add: rootIdOf_def)
            with wellFormed_fk[OF wf min(1)] show ?thesis by simp
          qed
          from c'(1) rows1 consider c0 where "c0 \<in> set (rows st)" "c' = ?g c0" | "c' \<in> set extra"
            by auto
          then show ?thesis
          proof cases
            case (1 c0)
            with c'(2) have "live c0" by simp
            from fetched[OF 1(1) this] inroots[OF \<open>m \<in> set ?ms\<close>] rm 1(2)
            have "id_c c0 = ?rid \<or> id_c c0 \<in> ?L" by simp
            moreover have "id_c c0 \<notin> ?L"
            proof
              assume inL: "id_c c0 \<in> ?L"
              show False
              proof (cases "linkPrecedence m = Primary")
                case True
                with rm 1(2) have "id_c m = id_c c0" by (simp add: rootIdOf_def)
                with inL notL show False by simp
              next
                case False
                with rm 1(2) have "linkedId m = Some (id_c c0)" by (simp add: rootIdOf_def)
                with inL min(2) \<open>\<not> (linkedId m \<in> Some ` ?L \<and> live m)\<close> show False by simp
              qed
            qed
            ultimately show ?thesis using 1(2) by simp
          next
            case 2
            with extra have "id_c c' = nextId st" "nextId st \<notin> id_c ` set (rows st)" by auto
            with old show ?thesis by simp
          qed
        qed
      qed
    next
      case 2
      with extra r show ?thesis by (auto simp: rootIdOf_def)
    qed
  qed
  have k3: "Some ?rid \<in> set (primaryIds ?ms1)"
  proof -
    from root(3) obtain m where m: "m \<in> set ?ms" "rootIdOf m = Some ?rid"
      by (auto simp: primaryIds_def)
    from m(2) have pm: "linkPrecedence m = Primary \<Longrightarrow> id_c m = ?rid"
      by (simp add: rootIdOf_def)
    from m(2) pm have "rootIdOf (?g m) = Some ?rid"
      by (simp add: rootIdOf_mergedRow)
    moreover have "?g m \<in> set ?ms1" using m(1) ms1 by simp
    ultimately show ?thesis using inroots1[of "?g m"] by simp
  qed
  have groot: "?g rootPrimary \<in> set (rows st1)" "live (?g rootPrimary)"
    using root rows1 by simp_all
  have d1: "distinct (map id_c (rows st1))"
  proof (cases "extra = []")
    case True
    with d show ?thesis unfolding rows1 by (simp add: comp_def)
  next
    case False
    with extra have "extra = [?N]" "nextId st \<notin> id_c ` set (rows st)" by simp_all
    with d show ?thesis unfolding rows1 by (simp add: comp_def)
  qed
  have sel: "(Some (id_c c) \<in> set (primaryIds ?ms1) \<and> live c) = (id_c c = ?rid \<and> live c)"
    if "c \<in> set (rows st1)" for c
  proof (cases "live c")
    case True
    show ?thesis
    proof
      assume "Some (id_c c) \<in> set (primaryIds ?ms1) \<and> live c"
      then obtain m' where "m' \<in> set ?ms1" "rootIdOf m' = Some (id_c c)"
        by (auto simp: primaryIds_def)
      from k2[OF this(1) that True this(2)] True show "id_c c = ?rid \<and> live c" by simp
    next
      assume "id_c c = ?rid \<and> live c"
      with k3 show "Some (id_c c) \<in> set (primaryIds ?ms1) \<and> live c" by simp
    qed
  next
    case False
    then show ?thesis by simp
  qed
  have "filter (\<lambda>c. Some (id_c c) \<in> set (primaryIds ?ms1) \<and> live c) (rows st1)
        = filter (\<lambda>c. id_c c = ?rid \<and> live c) (rows st1)"
    using sel by (auto intro: filter_cong)
  also have "\<dots> = filter live (filter (\<lambda>c. id_c c = id_c (?g rootPrimary)) (rows st1))"
    by (simp add: conj_commute)
  also have "\<dots> = [?g rootPrimary]"
    using filter_unique_id[OF d1 groot(1)] groot(2) by simp
  finally show "fetchPrimaries st1 (primaryIds ?ms1) = Inr [?g rootPrimary]"
    using k1 by (simp add: fetchPrimaries_def orderByCreatedAt_def)
qed

lemma mergeLoop_Nil_attach:
  assumes ne: "matchingContacts st1 em ph \<noteq> []"
    and fetch: "fetchPrimaries st1 (primaryIds (matchingContacts st1 em ph)) = Inr [p]"
    and no: "\<not> attachNeeded em ph (allLinkedOf st1 (id_c p))"
  shows "reconcile now' st1 em ph =
           Inr (st1, buildResponse p (filter (\<lambda>c. id_c c \<noteq> id_c p) (allLinkedOf st1 (id_c p))))"
  using assms by (simp add: reconcile_def attachAndRespond_def)

lemma buildResponse_mergedRow:
  "buildResponse (mergedRow now rid L p) ss = buildResponse p ss"
  by (rule buildResponse_cong) simp_all

lemma replay_fresh:
  assumes wf: "wellFormed st"
    and none: "matchingContacts st em ph = []"
    and rows1: "rows st1 = rows st @ [newRow now st em ph None Primary]"
    and new: "nextId st \<notin> id_c ` set (rows st)"
  shows "reconcile now' st1 em ph = Inr (st1, buildResponse (newRow now st em ph None Primary) [])"
proof -
  let ?N = "newRow now st em ph None Primary"
  have old: "id_c c \<noteq> nextId st" if "c \<in> set (rows st)" for c
    using old_id[OF new that] .
  have nolink: "linkedId c \<noteq> Some (nextId st)" if "c \<in> set (rows st)" for c
    using wellFormed_fk[OF wf that, of "nextId st"] new by auto
  have nomatch: "filter (\<lambda>c. live c \<and> matchesInput em ph c) (rows st) = []"
    using none by (simp add: matchingContacts_def)
  have ms1: "matchingContacts st1 em ph = [?N]"
    unfolding matchingContacts_def rows1 using nomatch
    by (simp add: orderByCreatedAt_def)
  have pid: "primaryIds [?N] = [Some (nextId st)]"
    by (simp add: primaryIds_def rootIdOf_def)
  have "filter (\<lambda>c. Some (id_c c) \<in> set [Some (nextId st)] \<and> live c) (rows st) = []"
    using old by (simp add: filter_empty_conv)
  then have fetch1: "fetchPrimaries st1 (primaryIds (matchingContacts st1 em ph)) = Inr [?N]"
    unfolding ms1 pid fetchPrimaries_def rows1
    by (simp add: orderByCreatedAt_def)
  have "filter (\<lambda>c. live c \<and> (id_c c = nextId st \<or> linkedId c = Some (nextId st))) (rows st) = []"
    using old nolink by (simp add: filter_empty_conv)
  then have grp: "allLinkedOf st1 (id_c ?N) = [?N]"
    unfolding allLinkedOf_def rows1 by (simp add: orderByCreatedAt_def)
  have no: "\<not> attachNeeded em ph (allLinkedOf st1 (id_c ?N))"
    unfolding grp attachNeeded_def using exactDuplicate_newRow[of now st em ph None Primary "[?N]"]
    by simp
  have ne: "matchingContacts st1 em ph \<noteq> []" using ms1 by simp
  show ?thesis
    using mergeLoop_Nil_attach[OF ne fetch1 no, of now'] unfolding grp by simp
qed

lemma replay_kept:
  assumes wf: "wellFormed st"
    and ne: "matchingContacts st em ph \<noteq> []"
    and fetch: "fetchPrimaries st (primaryIds (matchingContacts st em ph)) = Inr (rootPrimary # losers)"
    and rows1: "rows st1 = map (mergedRow now (id_c rootPrimary) (id_c ` set losers)) (rows st)"
    and no: "\<not> attachNeeded em ph (allLinkedOf st1 (id_c rootPrimary))"
  shows "reconcile now' st1 em ph =
           Inr (st1, buildResponse rootPrimary
                       (filter (\<lambda>c. id_c c \<noteq> id_c rootPrimary)
                               (allLinkedOf st1 (id_c rootPrimary))))"
proof -
  let ?g = "mergedRow now (id_c rootPrimary) (id_c ` set losers)"
  have r: "rows st1 = map ?g (rows st) @ []" using rows1 by simp
  have e: "[] = [] \<or> ([] = [newRow now st em ph (Some (id_c rootPrimary)) Secondary] \<and>
                 nextId st \<notin> id_c ` set (rows st))" by simp
  note sf = second_fetch[OF wf ne fetch r e]
  have no': "\<not> attachNeeded em ph (allLinkedOf st1 (id_c (?g rootPrimary)))"
    using no by simp
  from mergeLoop_Nil_attach[OF sf(1) sf(2) no', of now'] show ?thesis
    by (simp add: buildResponse_mergedRow)
qed

lemma emails_set_cong:
  "set ss = set ss' \<Longrightarrow> set (emails (buildResponse p ss)) = set (emails (buildResponse p ss'))"
  by (simp add: emails_exact del: remdups.simps)

lemma phoneNumbers_set_cong:
  "set ss = set ss' \<Longrightarrow>
   set (phoneNumbers (buildResponse p ss)) = set (phoneNumbers (buildResponse p ss'))"
  by (simp add: phoneNumbers_exact del: remdups.simps)

lemma replay_attached_store:
  assumes wf: "wellFormed st"
    and ne: "matchingContacts st em ph \<noteq> []"
    and fetch: "fetchPrimaries st (primaryIds (matchingContacts st em ph)) = Inr (rootPrimary # losers)"
    and notin: "id_c rootPrimary \<notin> id_c ` set losers"
    and rows1: "rows st1 = map (mergedRow now (id_c rootPrimary) (id_c ` set losers)) (rows st)
                  @ [newRow now st em ph (Some (id_c rootPrimary)) Secondary]"
    and new: "nextId st \<notin> id_c ` set (rows st)"
  shows "reconcile now' st1 em ph =
           Inr (st1, buildResponse rootPrimary
                       (filter (\<lambda>c. id_c c \<noteq> id_c rootPrimary)
                          (allLinkedOf st1 (id_c rootPrimary))))"
    and "set (allLinkedOf st1 (id_c rootPrimary)) =
           set (allLinkedOf (mergeLoop now (id_c rootPrimary) losers st) (id_c rootPrimary)
                @ [newRow now st em ph (Some (id_c rootPrimary)) Secondary])"
    and "notInFuture now st \<Longrightarrow>
         allLinkedOf st1 (id_c rootPrimary) =
           allLinkedOf (mergeLoop now (id_c rootPrimary) losers st) (id_c rootPrimary)
           @ [newRow now st em ph (Some (id_c rootPrimary)) Secondary]"
proof -
  let ?g = "mergedRow now (id_c rootPrimary) (id_c ` set losers)"
  let ?N = "newRow now st em ph (Some (id_c rootPrimary)) Secondary"
  let ?m = "mergeLoop now (id_c rootPrimary) losers st"
  let ?sel = "filter (\<lambda>c. live c \<and> (id_c c = id_c rootPrimary \<or>
                                     linkedId c = Some (id_c rootPrimary))) (map ?g (rows st))"
  have e: "[?N] = [] \<or> ([?N] = [?N] \<and> nextId st \<notin> id_c ` set (rows st))"
    using new by simp
  note sf = second_fetch[OF wf ne fetch rows1 e]
  have mrows: "rows ?m = map ?g (rows st)"
    using mergeLoop_rows[OF notin] .
  have a1: "allLinkedOf st1 (id_c rootPrimary) = sort_key createdAt (?sel @ [?N])"
    unfolding allLinkedOf_def rows1 orderByCreatedAt_def by simp
  have a2: "allLinkedOf ?m (id_c rootPrimary) = sort_key createdAt ?sel"
    unfolding allLinkedOf_def mrows orderByCreatedAt_def by simp
  show sets: "set (allLinkedOf st1 (id_c rootPrimary)) = set (allLinkedOf ?m (id_c rootPrimary) @ [?N])"
    unfolding a1 a2 by simp
  then have "?N \<in> set (allLinkedOf st1 (id_c rootPrimary))"
    by simp
  then have "exactDuplicate em ph (allLinkedOf st1 (id_c rootPrimary))"
    by (rule exactDuplicate_newRow)
  then have no: "\<not> attachNeeded em ph (allLinkedOf st1 (id_c (?g rootPrimary)))"
    by (simp add: attachNeeded_def)
  from mergeLoop_Nil_attach[OF sf(1) sf(2) no, of now']
  show "reconcile now' st1 em ph =
           Inr (st1, buildResponse rootPrimary
                       (filter (\<lambda>c. id_c c \<noteq> id_c rootPrimary)
                          (allLinkedOf st1 (id_c rootPrimary))))"
    unfolding buildResponse_mergedRow mergedRow_fields(1) .
  show "allLinkedOf st1 (id_c rootPrimary) = allLinkedOf ?m (id_c rootPrimary) @ [?N]"
    if clk: "notInFuture now st"
  proof -
    have "createdAt x \<le> now" if "x \<in> set (rows st)" for x
      using clk that by (simp add: notInFuture_def list_all_iff)
    then have le: "\<forall>x\<in>set ?sel. createdAt x \<le> createdAt ?N"
      by auto
    show ?thesis
      unfolding a1 a2 using le by (rule sort_key_snoc)
  qed
qed




end
